theory Spec2Isabelle
  imports Main
begin

section \<open>Job records and the state of the Home component (src/app/page.tsx)\<close>

text \<open>
  A JavaScript string is a sequence of code units; \<^typ>\<open>string\<close> covers the code units
  0 to 255. Timestamps (\<^verbatim>\<open>Date.now()\<close>) are integers. An optional field of the
  interface \<^verbatim>\<open>GeneratedImage\<close> is an \<^typ>\<open>'a option\<close>, \<^term>\<open>None\<close> when the
  property is absent or \<^verbatim>\<open>undefined\<close>. The field \<^verbatim>\<open>id\<close> is written \<open>id'\<close>.
\<close>

datatype status = Loading | Complete | Error

record GeneratedImage =
  id' :: string
  prompt :: string
  status :: status
  url :: "string option"
  error :: "string option"
  startTime :: int
  completionTime :: "int option"

text \<open>The three \<^verbatim>\<open>useState\<close> cells of \<^verbatim>\<open>Home\<close>.\<close>

record home_state =
  prompt_input :: string
  images :: "GeneratedImage list"
  pendingJobs :: "string list"

section \<open>The polling effect\<close>

text \<open>
  What one \<^verbatim>\<open>fetch\<close> followed by \<^verbatim>\<open>response.json()\<close> can do: \<^verbatim>\<open>fetch\<close> throws,
  the response is not ok, \<^verbatim>\<open>json()\<close> throws, or a body is read.
\<close>

datatype 'a fetched = FetchThrows | NotOk | JsonThrows | Ok 'a

text \<open>The fields the polling loop reads of the body of \<^verbatim>\<open>/api/results/<jobId>\<close>.\<close>

record status_response =
  data_status :: string
  data_url :: "string option"
  data_message :: "string option"

text \<open>
  The local state of one run of the interval callback: the store as the queued
  \<^verbatim>\<open>setImages\<close> updaters leave it, the array \<^verbatim>\<open>completedJobs\<close>, the ids a status
  query was issued for, and the ids \<^verbatim>\<open>console.error\<close> was called for.
\<close>

record poll_round =
  round_images :: "GeneratedImage list"
  completedJobs :: "string list"
  queried :: "string list"
  logged :: "string list"

definition markComplete :: "string \<Rightarrow> string option \<Rightarrow> int \<Rightarrow> GeneratedImage \<Rightarrow> GeneratedImage" where
  "markComplete jobId u now img =
     (if id' img = jobId
      then img\<lparr>status := Complete, url := u, completionTime := Some now\<rparr>
      else img)"

definition markError :: "string \<Rightarrow> string option \<Rightarrow> int \<Rightarrow> GeneratedImage \<Rightarrow> GeneratedImage" where
  "markError jobId m now img =
     (if id' img = jobId
      then img\<lparr>status := Error, error := m, completionTime := Some now\<rparr>
      else img)"

text \<open>The guard \<^verbatim>\<open>!jobId || jobId === 'undefined'\<close> on a string.\<close>

definition malformed :: "string \<Rightarrow> bool" where
  "malformed jobId = (jobId = [] \<or> jobId = ''undefined'')"

text \<open>One iteration of \<^verbatim>\<open>for (const jobId of pendingJobs)\<close>.\<close>

definition pollIteration :: "status_response fetched \<Rightarrow> int \<Rightarrow> string \<Rightarrow> poll_round \<Rightarrow> poll_round" where
  "pollIteration response now jobId acc =
     (if malformed jobId then acc\<lparr>completedJobs := completedJobs acc @ [jobId]\<rparr>
      else
        let acc' = acc\<lparr>queried := queried acc @ [jobId]\<rparr> in
        (case response of
           Ok data \<Rightarrow>
             if data_status data = ''SUCCESS'' then
               acc'\<lparr>round_images := map (markComplete jobId (data_url data) now) (round_images acc'),
                    completedJobs := completedJobs acc' @ [jobId]\<rparr>
             else if data_status data = ''ERROR'' then
               acc'\<lparr>round_images := map (markError jobId (data_message data) now) (round_images acc'),
                    completedJobs := completedJobs acc' @ [jobId]\<rparr>
             else acc'
         | _ \<Rightarrow> acc'\<lparr>logged := logged acc' @ [jobId]\<rparr>))"

text \<open>
  The loop. \<open>fetch k jobId\<close> is what the query of the \<open>k\<close>-th iteration for \<open>jobId\<close>
  does and \<open>now k\<close> is the clock there.
\<close>

fun pollLoop :: "(nat \<Rightarrow> string \<Rightarrow> status_response fetched) \<Rightarrow> (nat \<Rightarrow> int) \<Rightarrow> nat \<Rightarrow>
    string list \<Rightarrow> poll_round \<Rightarrow> poll_round" where
  "pollLoop fetch now k [] acc = acc"
| "pollLoop fetch now k (jobId # rest) acc =
     pollLoop fetch now (Suc k) rest (pollIteration (fetch k jobId) (now k) jobId acc)"

definition pollRound :: "string list \<Rightarrow> (nat \<Rightarrow> string \<Rightarrow> status_response fetched) \<Rightarrow> (nat \<Rightarrow> int) \<Rightarrow>
    GeneratedImage list \<Rightarrow> poll_round" where
  "pollRound jobs fetch now imgs =
     pollLoop fetch now 0 jobs
       \<lparr>round_images = imgs, completedJobs = [], queried = [], logged = []\<rparr>"

text \<open>
  The interval callback. \<open>jobs\<close> is the array \<^verbatim>\<open>pendingJobs\<close> its closure captured when
  the effect ran; the updaters of \<^verbatim>\<open>setImages\<close> and \<^verbatim>\<open>setPendingJobs\<close> act on the
  state of the moment.
\<close>

definition intervalCallback :: "string list \<Rightarrow> (nat \<Rightarrow> string \<Rightarrow> status_response fetched) \<Rightarrow>
    (nat \<Rightarrow> int) \<Rightarrow> home_state \<Rightarrow> home_state" where
  "intervalCallback jobs fetch now s =
     (let r = pollRound jobs fetch now (images s) in
      s\<lparr>images := round_images r,
        pendingJobs :=
          (if length (completedJobs r) > 0
           then filter (\<lambda>jobId. jobId \<notin> set (completedJobs r)) (pendingJobs s)
           else pendingJobs s)\<rparr>)"

text \<open>
  The effect on \<^verbatim>\<open>[pendingJobs]\<close>: nothing when the array is empty, otherwise
  \<^verbatim>\<open>setInterval\<close> of the callback, every 1000 ms, closed over the array.
\<close>

datatype timer = Interval nat "string list"

definition pollingEffect :: "string list \<Rightarrow> timer option" where
  "pollingEffect pending =
     (if length pending = 0 then None else Some (Interval 1000 pending))"

text \<open>A firing of the timer the effect of the current state installed.\<close>

definition tick :: "(nat \<Rightarrow> string \<Rightarrow> status_response fetched) \<Rightarrow> (nat \<Rightarrow> int) \<Rightarrow> home_state \<Rightarrow> home_state" where
  "tick fetch now s =
     (case pollingEffect (pendingJobs s) of
        None \<Rightarrow> s
      | Some (Interval ms jobs) \<Rightarrow> intervalCallback jobs fetch now s)"

section \<open>User actions\<close>

text \<open>
  \<^verbatim>\<open>String.prototype.trim\<close> removes white space and line terminators at both ends;
  among the code units 0 to 255 these are 9 to 13, 32 and 160.
\<close>

definition isWhiteSpace :: "char \<Rightarrow> bool" where
  "isWhiteSpace c = (of_char c \<in> {9, 10, 11, 12, 13, 32, 160 :: nat})"

definition trim :: "string \<Rightarrow> string" where
  "trim s = rev (dropWhile isWhiteSpace (rev (dropWhile isWhiteSpace s)))"

text \<open>
  What \<^verbatim>\<open>generateImage\<close> does besides updating the state: the \<^verbatim>\<open>text\<close> fields it
  posted to \<^verbatim>\<open>/api/generate\<close>, and the messages it passed to \<^verbatim>\<open>alert\<close>.
\<close>

record generate_outcome =
  new_state :: home_state
  gateway_calls :: "string list"
  alerts :: "string list"

text \<open>
  \<open>response\<close> is what the request does, with \<^verbatim>\<open>data["job-id"]\<close> as the body read
  (\<^term>\<open>None\<close> when the property is absent); \<open>now\<close> is \<^verbatim>\<open>Date.now()\<close>.
\<close>

definition generateImage :: "string option fetched \<Rightarrow> int \<Rightarrow> home_state \<Rightarrow> generate_outcome" where
  "generateImage response now s =
     (if trim (prompt_input s) = [] then
        \<lparr>new_state = s, gateway_calls = [], alerts = []\<rparr>
      else
        let failed = \<lparr>new_state = s, gateway_calls = [prompt_input s],
                       alerts = [''Failed to generate image. Please try again.'']\<rparr> in
        (case response of
           Ok (Some jobId) \<Rightarrow>
             if jobId = [] then failed
             else
               let newImage = \<lparr>id' = jobId, prompt = prompt_input s, status = Loading,
                                url = None, error = None, startTime = now,
                                completionTime = None\<rparr> in
               \<lparr>new_state = \<lparr>prompt_input = [],
                               images = newImage # images s,
                               pendingJobs = pendingJobs s @ [jobId]\<rparr>,
                 gateway_calls = [prompt_input s], alerts = []\<rparr>
         | _ \<Rightarrow> failed))"

definition deleteImage :: "string \<Rightarrow> home_state \<Rightarrow> home_state" where
  "deleteImage i s = s\<lparr>images := filter (\<lambda>img. id' img \<noteq> i) (images s)\<rparr>"

text \<open>The file name \<^verbatim>\<open>downloadImage\<close> gives the link.\<close>

definition isAlnum :: "char \<Rightarrow> bool" where
  "isAlnum c =
     (let n = (of_char c :: nat) in
      (48 \<le> n \<and> n \<le> 57) \<or> (65 \<le> n \<and> n \<le> 90) \<or> (97 \<le> n \<and> n \<le> 122))"

text \<open>\<^verbatim>\<open>slice(0, n)\<close> for a non-negative \<open>n\<close>.\<close>

definition slice0 :: "nat \<Rightarrow> string \<Rightarrow> string" where
  "slice0 n s = take n s"

text \<open>\<^verbatim>\<open>replace(/[^a-z0-9]/gi, '_')\<close>: the class matches a code unit that is no ASCII letter or digit.\<close>

definition replaceNonAlnum :: "string \<Rightarrow> string" where
  "replaceNonAlnum s = map (\<lambda>c. if isAlnum c then c else CHR ''_'') s"

text \<open>
  \<^verbatim>\<open>toLowerCase\<close> on the code units 0 to 255: A to Z, and the Latin-1 capitals 192 to 222
  but the multiplication sign 215, move up by 32.
\<close>

definition toLowerCaseChar :: "char \<Rightarrow> char" where
  "toLowerCaseChar c =
     (let n = (of_char c :: nat) in
      if (65 \<le> n \<and> n \<le> 90) \<or> (192 \<le> n \<and> n \<le> 222 \<and> n \<noteq> 215) then char_of (n + 32) else c)"

definition toLowerCase :: "string \<Rightarrow> string" where
  "toLowerCase s = map toLowerCaseChar s"

definition downloadFilename :: "string \<Rightarrow> string" where
  "downloadFilename p = toLowerCase (replaceNonAlnum (slice0 30 p)) @ ''.jpg''"

section \<open>Sessions: sequences of events on the state\<close>

text \<open>
  \<open>Tick\<close> is a firing of the timer of the current effect. \<open>Callback\<close> is a run of an
  interval callback whose closure holds any array \<open>jobs\<close>: a callback still awaiting its
  queries when the state has moved on runs against an array that is no longer
  \<^verbatim>\<open>pendingJobs\<close>. \<open>SetPrompt\<close> is typing into the input.
\<close>

datatype event =
    Tick "nat \<Rightarrow> string \<Rightarrow> status_response fetched" "nat \<Rightarrow> int"
  | Callback "string list" "nat \<Rightarrow> string \<Rightarrow> status_response fetched" "nat \<Rightarrow> int"
  | Generate "string option fetched" int
  | Delete string
  | SetPrompt string

fun step :: "event \<Rightarrow> home_state \<Rightarrow> home_state" where
  "step (Tick fetch now) s = tick fetch now s"
| "step (Callback jobs fetch now) s = intervalCallback jobs fetch now s"
| "step (Generate response now) s = new_state (generateImage response now s)"
| "step (Delete i) s = deleteImage i s"
| "step (SetPrompt p) s = s\<lparr>prompt_input := p\<rparr>"

fun run :: "event list \<Rightarrow> home_state \<Rightarrow> home_state" where
  "run [] s = s"
| "run (e # es) s = run es (step e s)"

text \<open>The state after mounting with the store \<open>loaded\<close> from local storage.\<close>

definition initialState :: "GeneratedImage list \<Rightarrow> home_state" where
  "initialState loaded = \<lparr>prompt_input = [], images = loaded, pendingJobs = []\<rparr>"

section \<open>Properties of a polling round\<close>

text \<open>What one iteration does to one record, and whether it retires the id.\<close>

definition terminal :: "status_response fetched \<Rightarrow> bool" where
  "terminal response =
     (case response of
        Ok data \<Rightarrow> data_status data = ''SUCCESS'' \<or> data_status data = ''ERROR''
      | _ \<Rightarrow> False)"

definition reconcile :: "status_response fetched \<Rightarrow> int \<Rightarrow> string \<Rightarrow> GeneratedImage \<Rightarrow> GeneratedImage" where
  "reconcile response now jobId img =
     (if malformed jobId then img
      else case response of
        Ok data \<Rightarrow>
          if data_status data = ''SUCCESS'' then markComplete jobId (data_url data) now img
          else if data_status data = ''ERROR'' then markError jobId (data_message data) now img
          else img
      | _ \<Rightarrow> img)"

definition retires :: "status_response fetched \<Rightarrow> string \<Rightarrow> bool" where
  "retires response jobId = (malformed jobId \<or> terminal response)"

fun reconcileAll :: "(nat \<Rightarrow> string \<Rightarrow> status_response fetched) \<Rightarrow> (nat \<Rightarrow> int) \<Rightarrow> nat \<Rightarrow>
    string list \<Rightarrow> GeneratedImage \<Rightarrow> GeneratedImage" where
  "reconcileAll fetch now k [] img = img"
| "reconcileAll fetch now k (jobId # rest) img =
     reconcileAll fetch now (Suc k) rest (reconcile (fetch k jobId) (now k) jobId img)"

fun retired :: "(nat \<Rightarrow> string \<Rightarrow> status_response fetched) \<Rightarrow> nat \<Rightarrow> string list \<Rightarrow> string list" where
  "retired fetch k [] = []"
| "retired fetch k (jobId # rest) =
     (if retires (fetch k jobId) jobId then [jobId] else []) @ retired fetch (Suc k) rest"

lemma pollIteration_images:
  "round_images (pollIteration response now jobId acc) =
     map (reconcile response now jobId) (round_images acc)"
  by (cases response) (auto simp: pollIteration_def reconcile_def Let_def list_eq_iff_nth_eq)

lemma pollIteration_completed:
  "completedJobs (pollIteration response now jobId acc) =
     completedJobs acc @ (if retires response jobId then [jobId] else [])"
  by (simp add: pollIteration_def retires_def terminal_def Let_def split: fetched.splits)

lemma pollIteration_queried:
  "queried (pollIteration response now jobId acc) =
     queried acc @ (if malformed jobId then [] else [jobId])"
  by (simp add: pollIteration_def Let_def split: fetched.splits)

lemma pollLoop_images:
  "round_images (pollLoop fetch now k jobs acc) =
     map (reconcileAll fetch now k jobs) (round_images acc)"
  by (induction jobs arbitrary: k acc) (simp_all add: pollIteration_images list_eq_iff_nth_eq)

lemma pollLoop_completed:
  "completedJobs (pollLoop fetch now k jobs acc) = completedJobs acc @ retired fetch k jobs"
  by (induction jobs arbitrary: k acc) (simp_all add: pollIteration_completed)

lemma pollLoop_queried:
  "queried (pollLoop fetch now k jobs acc) = queried acc @ filter (\<lambda>j. \<not> malformed j) jobs"
  by (induction jobs arbitrary: k acc) (simp_all add: pollIteration_queried)

lemma intervalCallback_images:
  "images (intervalCallback jobs fetch now s) = map (reconcileAll fetch now 0 jobs) (images s)"
  by (simp add: intervalCallback_def pollRound_def Let_def pollLoop_images)

lemma intervalCallback_pending:
  "pendingJobs (intervalCallback jobs fetch now s) =
     filter (\<lambda>jobId. jobId \<notin> set (retired fetch 0 jobs)) (pendingJobs s)"
  by (simp add: intervalCallback_def pollRound_def Let_def pollLoop_completed)

lemma intervalCallback_prompt:
  "prompt_input (intervalCallback jobs fetch now s) = prompt_input s"
  by (simp add: intervalCallback_def Let_def)

lemma tick_eq: "tick fetch now s = intervalCallback (pendingJobs s) fetch now s"
  by (simp add: tick_def pollingEffect_def intervalCallback_def pollRound_def Let_def)

lemma reconcile_id: "id' (reconcile response now jobId img) = id' img"
  by (simp add: reconcile_def markComplete_def markError_def split: fetched.splits)

lemma reconcileAll_id: "id' (reconcileAll fetch now k jobs img) = id' img"
  by (induction jobs arbitrary: k img) (simp_all add: reconcile_id)

lemma reconcile_other: "id' img \<noteq> jobId \<Longrightarrow> reconcile response now jobId img = img"
  by (simp add: reconcile_def markComplete_def markError_def split: fetched.splits)

lemma reconcile_not_retired: "\<not> retires response jobId \<Longrightarrow> reconcile response now jobId img = img"
  by (cases response) (auto simp: reconcile_def retires_def terminal_def)

lemma reconcile_malformed: "malformed jobId \<Longrightarrow> reconcile response now jobId img = img"
  by (simp add: reconcile_def)

lemma retired_subset: "set (retired fetch k jobs) \<subseteq> set jobs"
  by (induction jobs arbitrary: k) auto

lemma retired_malformed: "malformed j \<Longrightarrow> j \<in> set jobs \<Longrightarrow> j \<in> set (retired fetch k jobs)"
  by (induction jobs arbitrary: k) (auto simp: retires_def)

lemma reconcileAll_unchanged:
  "id' img \<notin> set (retired fetch k jobs) \<or> malformed (id' img) \<Longrightarrow>
     reconcileAll fetch now k jobs img = img"
proof (induction jobs arbitrary: k)
  case Nil
  then show ?case by simp
next
  case (Cons jobId rest)
  have "reconcile (fetch k jobId) (now k) jobId img = img"
  proof (cases "id' img = jobId")
    case True
    with Cons.prems have "\<not> retires (fetch k jobId) jobId \<or> malformed jobId" by auto
    then show ?thesis using reconcile_not_retired reconcile_malformed by blast
  next
    case False
    then show ?thesis by (rule reconcile_other)
  qed
  moreover have "id' img \<notin> set (retired fetch (Suc k) rest) \<or> malformed (id' img)"
    using Cons.prems by auto
  ultimately show ?case using Cons.IH by simp
qed

lemma filter_map_same:
  assumes "\<And>x. x \<in> set xs \<Longrightarrow> P (f x) = P x"
    and "\<And>x. x \<in> set xs \<Longrightarrow> P x \<Longrightarrow> f x = x"
  shows "filter P (map f xs) = filter P xs"
  using assms by (induction xs) auto

lemma callback_keeps_records:
  assumes "j \<notin> set (retired fetch 0 jobs) \<or> malformed j"
  shows "filter (\<lambda>img. id' img = j) (images (intervalCallback jobs fetch now s)) =
         filter (\<lambda>img. id' img = j) (images s)"
  unfolding intervalCallback_images
  by (rule filter_map_same) (use assms in \<open>auto simp: reconcileAll_id reconcileAll_unchanged\<close>)

text \<open>A query that fails before a body is read: the \<^verbatim>\<open>catch\<close> branch.\<close>

definition transportFailure :: "status_response fetched \<Rightarrow> bool" where
  "transportFailure response = (case response of Ok data \<Rightarrow> False | _ \<Rightarrow> True)"

lemma failing_not_retired:
  assumes "\<not> malformed j" and "\<forall>k. transportFailure (fetch k j)"
  shows "j \<notin> set (retired fetch k jobs)"
proof (induction jobs arbitrary: k)
  case Nil
  show ?case by simp
next
  case (Cons jobId rest)
  have "\<not> retires (fetch k j) j"
    using assms by (cases "fetch k j") (auto simp: retires_def terminal_def transportFailure_def dest: spec [of _ k])
  with Cons show ?case by auto
qed

text \<open>Successive firings of the timer, each with its own responses and clock.\<close>

fun ticks :: "((nat \<Rightarrow> string \<Rightarrow> status_response fetched) \<times> (nat \<Rightarrow> int)) list \<Rightarrow>
    home_state \<Rightarrow> home_state" where
  "ticks [] s = s"
| "ticks (r # rs) s = ticks rs (tick (fst r) (snd r) s)"

section \<open>Malformed ids\<close>

text \<open>
  C5. An id of the working set that is empty or the string \<^verbatim>\<open>undefined\<close> gets no status
  query in the round, is out of \<^verbatim>\<open>pendingJobs\<close> after the round, and the records with
  that id are the same after the round as before, whatever the gateway would have
  answered.
\<close>

theorem malformed_id_dropped_without_query:
  assumes "malformed j" and "j \<in> set (pendingJobs s)"
  shows "j \<notin> set (queried (pollRound (pendingJobs s) fetch now (images s)))
       \<and> j \<notin> set (pendingJobs (tick fetch now s))
       \<and> filter (\<lambda>img. id' img = j) (images (tick fetch now s)) =
           filter (\<lambda>img. id' img = j) (images s)"
proof -
  have "j \<notin> set (queried (pollRound (pendingJobs s) fetch now (images s)))"
    using assms(1) by (simp add: pollRound_def pollLoop_queried)
  moreover have "j \<in> set (retired fetch 0 (pendingJobs s))"
    using assms by (rule retired_malformed)
  then have "j \<notin> set (pendingJobs (tick fetch now s))"
    by (simp add: tick_eq intervalCallback_pending)
  moreover have "filter (\<lambda>img. id' img = j) (images (tick fetch now s)) =
      filter (\<lambda>img. id' img = j) (images s)"
    unfolding tick_eq using assms(1) by (intro callback_keeps_records) simp
  ultimately show ?thesis by simp
qed

theorem malformed_id_dropped_without_query_witness:
  "malformed ''undefined''
   \<and> pendingJobs (tick (\<lambda>k j. Ok \<lparr>data_status = ''ERROR'', data_url = None, data_message = Some ''OOM''\<rparr>) (\<lambda>k. 2000)
        \<lparr>prompt_input = [],
         images = [\<lparr>id' = ''undefined'', prompt = ''a red fox'', status = Loading, url = None,
                    error = None, startTime = 1000, completionTime = None\<rparr>],
         pendingJobs = [''undefined'', ''abc123'']\<rparr>) = []
   \<and> map status (images (tick (\<lambda>k j. Ok \<lparr>data_status = ''ERROR'', data_url = None, data_message = Some ''OOM''\<rparr>) (\<lambda>k. 2000)
        \<lparr>prompt_input = [],
         images = [\<lparr>id' = ''undefined'', prompt = ''a red fox'', status = Loading, url = None,
                    error = None, startTime = 1000, completionTime = None\<rparr>],
         pendingJobs = [''undefined'', ''abc123'']\<rparr>)) = [Loading]"
  using malformed_id_dropped_without_query [of "''undefined''"
      "\<lparr>prompt_input = [],
         images = [\<lparr>id' = ''undefined'', prompt = ''a red fox'', status = Loading, url = None,
                    error = None, startTime = 1000, completionTime = None\<rparr>],
         pendingJobs = [''undefined'', ''abc123'']\<rparr>"
      "\<lambda>k j. Ok \<lparr>data_status = ''ERROR'', data_url = None, data_message = Some ''OOM''\<rparr>" "\<lambda>k. 2000"]
  by (simp add: malformed_def tick_def pollingEffect_def intervalCallback_def pollRound_def
      pollIteration_def markError_def markComplete_def Let_def)

section \<open>Transient failures\<close>

text \<open>
  C3. Let \<open>j\<close> be a well-formed id of the working set, and let every status query for
  \<open>j\<close> fail before a body is read (\<^verbatim>\<open>fetch\<close> throws, the response is not ok, or
  \<^verbatim>\<open>json()\<close> throws) in each of any number of successive rounds. Then the records
  with id \<open>j\<close> are unchanged, \<open>j\<close> is still in \<^verbatim>\<open>pendingJobs\<close>, and the next round
  queries it again.
\<close>

theorem transient_failures_keep_job_pending:
  assumes "\<not> malformed j" and "j \<in> set (pendingJobs s)"
    and "\<forall>r \<in> set rounds. \<forall>k. transportFailure (fst r k j)"
  shows "filter (\<lambda>img. id' img = j) (images (ticks rounds s)) =
           filter (\<lambda>img. id' img = j) (images s)
       \<and> j \<in> set (pendingJobs (ticks rounds s))
       \<and> j \<in> set (queried (pollRound (pendingJobs (ticks rounds s)) fetch' now'
                 (images (ticks rounds s))))"
proof -
  have keep: "filter (\<lambda>img. id' img = j) (images (ticks rounds s)) =
           filter (\<lambda>img. id' img = j) (images s) \<and> j \<in> set (pendingJobs (ticks rounds s))"
    using assms(2,3)
  proof (induction rounds arbitrary: s)
    case Nil
    then show ?case by simp
  next
    case (Cons r rs)
    have fail: "\<forall>k. transportFailure (fst r k j)"
      using Cons.prems(2) by simp
    have nr: "j \<notin> set (retired (fst r) 0 (pendingJobs s))"
      using assms(1) fail by (rule failing_not_retired)
    have same: "filter (\<lambda>img. id' img = j) (images (tick (fst r) (snd r) s)) =
        filter (\<lambda>img. id' img = j) (images s)"
      unfolding tick_eq using nr by (intro callback_keeps_records) simp
    have pend: "j \<in> set (pendingJobs (tick (fst r) (snd r) s))"
      using nr Cons.prems(1) by (simp add: tick_eq intervalCallback_pending)
    have "filter (\<lambda>img. id' img = j) (images (ticks rs (tick (fst r) (snd r) s))) =
           filter (\<lambda>img. id' img = j) (images (tick (fst r) (snd r) s))
        \<and> j \<in> set (pendingJobs (ticks rs (tick (fst r) (snd r) s)))"
      using pend Cons.prems(2) by (intro Cons.IH) simp_all
    with same show ?case by simp
  qed
  then have "j \<in> set (queried (pollRound (pendingJobs (ticks rounds s)) fetch' now'
                 (images (ticks rounds s))))"
    using assms(1) by (simp add: pollRound_def pollLoop_queried)
  with keep show ?thesis by simp
qed

theorem transient_failures_keep_job_pending_witness:
  "\<not> malformed ''abc123''
   \<and> ticks [(\<lambda>k j. FetchThrows, \<lambda>k. 2000), (\<lambda>k j. NotOk, \<lambda>k. 3000)]
        \<lparr>prompt_input = [],
         images = [\<lparr>id' = ''abc123'', prompt = ''a red fox'', status = Loading, url = None,
                    error = None, startTime = 1000, completionTime = None\<rparr>],
         pendingJobs = [''abc123'']\<rparr>
     = \<lparr>prompt_input = [],
         images = [\<lparr>id' = ''abc123'', prompt = ''a red fox'', status = Loading, url = None,
                    error = None, startTime = 1000, completionTime = None\<rparr>],
         pendingJobs = [''abc123'']\<rparr>"
  using transient_failures_keep_job_pending [of "''abc123''"
      "\<lparr>prompt_input = [],
         images = [\<lparr>id' = ''abc123'', prompt = ''a red fox'', status = Loading, url = None,
                    error = None, startTime = 1000, completionTime = None\<rparr>],
         pendingJobs = [''abc123'']\<rparr>"
      "[(\<lambda>k j. FetchThrows, \<lambda>k. 2000), (\<lambda>k j. NotOk, \<lambda>k. 3000)]"]
  by (simp add: malformed_def transportFailure_def tick_def pollingEffect_def intervalCallback_def
      pollRound_def pollIteration_def Let_def)

section \<open>Terminal records and stray responses\<close>

text \<open>A gateway that answers every query alike, and a clock that stands still.\<close>

definition answering :: "status_response fetched \<Rightarrow> nat \<Rightarrow> string \<Rightarrow> status_response fetched" where
  "answering response k jobId = response"

definition clock :: "int \<Rightarrow> nat \<Rightarrow> int" where
  "clock t k = t"

lemma callback_changes_retired:
  assumes "filter (\<lambda>img. id' img = j) (images (intervalCallback jobs fetch now s)) \<noteq>
           filter (\<lambda>img. id' img = j) (images s)"
  shows "j \<in> set (retired fetch 0 jobs)"
  using assms callback_keeps_records by blast

lemma tick_outside_pending:
  assumes "j \<notin> set (pendingJobs s)"
  shows "filter (\<lambda>img. id' img = j) (images (tick fetch now s)) =
           filter (\<lambda>img. id' img = j) (images s)
       \<and> j \<notin> set (pendingJobs (tick fetch now s))"
proof -
  have "j \<notin> set (retired fetch 0 (pendingJobs s))"
    using assms retired_subset by blast
  then have "filter (\<lambda>img. id' img = j) (images (tick fetch now s)) =
           filter (\<lambda>img. id' img = j) (images s)"
    unfolding tick_eq by (intro callback_keeps_records) simp
  moreover have "j \<notin> set (pendingJobs (tick fetch now s))"
    using assms by (simp add: tick_eq intervalCallback_pending)
  ultimately show ?thesis by simp
qed

lemma ticks_outside_pending:
  assumes "j \<notin> set (pendingJobs s)"
  shows "filter (\<lambda>img. id' img = j) (images (ticks rounds s)) =
           filter (\<lambda>img. id' img = j) (images s)
       \<and> j \<notin> set (pendingJobs (ticks rounds s))"
  using assms
proof (induction rounds arbitrary: s)
  case Nil
  then show ?case by simp
next
  case (Cons r rs)
  from tick_outside_pending [OF Cons.prems, of "fst r" "snd r"]
  have 1: "filter (\<lambda>img. id' img = j) (images (tick (fst r) (snd r) s)) =
           filter (\<lambda>img. id' img = j) (images s)"
    and 2: "j \<notin> set (pendingJobs (tick (fst r) (snd r) s))"
    by simp_all
  from Cons.IH [OF 2] 1 show ?case by simp
qed

text \<open>
  C4, as the code has it. The callback applies a \<^verbatim>\<open>SUCCESS\<close> or \<^verbatim>\<open>ERROR\<close> response to
  every record with the id, whatever the record's status; what shields a terminal record
  is that its id is no longer polled. A run of the interval callback that changes a
  record with id \<open>j\<close> had \<open>j\<close> in the array it polled and leaves \<open>j\<close> out of
  \<^verbatim>\<open>pendingJobs\<close>; and once \<open>j\<close> is not in \<^verbatim>\<open>pendingJobs\<close>, no sequence of firings of the
  timer changes a record with id \<open>j\<close> or brings \<open>j\<close> back.
\<close>

theorem terminal_record_shielded_by_working_set:
  "(filter (\<lambda>img. id' img = j) (images (intervalCallback jobs fetch now s)) \<noteq>
      filter (\<lambda>img. id' img = j) (images s)
    \<longrightarrow> j \<in> set jobs \<and> j \<notin> set (pendingJobs (intervalCallback jobs fetch now s)))
   \<and> (j \<notin> set (pendingJobs s)
    \<longrightarrow> filter (\<lambda>img. id' img = j) (images (ticks rounds s)) =
          filter (\<lambda>img. id' img = j) (images s)
        \<and> j \<notin> set (pendingJobs (ticks rounds s)))"
proof (intro conjI impI)
  assume "filter (\<lambda>img. id' img = j) (images (intervalCallback jobs fetch now s)) \<noteq>
      filter (\<lambda>img. id' img = j) (images s)"
  then have r: "j \<in> set (retired fetch 0 jobs)"
    by (rule callback_changes_retired)
  then show "j \<in> set jobs"
    using retired_subset by blast
  from r show "j \<notin> set (pendingJobs (intervalCallback jobs fetch now s))"
    by (simp add: intervalCallback_pending)
next
  assume "j \<notin> set (pendingJobs s)"
  then show "filter (\<lambda>img. id' img = j) (images (ticks rounds s)) =
      filter (\<lambda>img. id' img = j) (images s)"
    and "j \<notin> set (pendingJobs (ticks rounds s))"
    using ticks_outside_pending by blast+
qed

text \<open>
  The witness: a pending job gets \<^verbatim>\<open>SUCCESS\<close> in a firing of the timer (its record
  changes and its id leaves the working set), and two more firings, answered
  \<^verbatim>\<open>ERROR\<close>, change nothing.
\<close>

theorem terminal_record_shielded_by_working_set_witness:
  "map status (images (intervalCallback [''abc123'']
       (answering (Ok \<lparr>data_status = ''SUCCESS'', data_url = Some ''https://x/img.jpg'', data_message = None\<rparr>))
       (clock 2000)
       \<lparr>prompt_input = [],
        images = [\<lparr>id' = ''abc123'', prompt = ''a red fox'', status = Loading, url = None,
                   error = None, startTime = 1000, completionTime = None\<rparr>],
        pendingJobs = [''abc123'']\<rparr>)) = [Complete]
   \<and> pendingJobs (intervalCallback [''abc123'']
       (answering (Ok \<lparr>data_status = ''SUCCESS'', data_url = Some ''https://x/img.jpg'', data_message = None\<rparr>))
       (clock 2000)
       \<lparr>prompt_input = [],
        images = [\<lparr>id' = ''abc123'', prompt = ''a red fox'', status = Loading, url = None,
                   error = None, startTime = 1000, completionTime = None\<rparr>],
        pendingJobs = [''abc123'']\<rparr>) = []
   \<and> images (ticks
       [(answering (Ok \<lparr>data_status = ''ERROR'', data_url = None, data_message = Some ''OOM''\<rparr>), clock 3000),
        (answering (Ok \<lparr>data_status = ''ERROR'', data_url = None, data_message = Some ''OOM''\<rparr>), clock 4000)]
       \<lparr>prompt_input = [],
        images = [\<lparr>id' = ''abc123'', prompt = ''a red fox'', status = Complete,
                   url = Some ''https://x/img.jpg'', error = None, startTime = 1000,
                   completionTime = Some 2000\<rparr>],
        pendingJobs = []\<rparr>)
     = [\<lparr>id' = ''abc123'', prompt = ''a red fox'', status = Complete,
         url = Some ''https://x/img.jpg'', error = None, startTime = 1000,
         completionTime = Some 2000\<rparr>]"
  using terminal_record_shielded_by_working_set [of "''abc123''" "[''abc123'']"
      "answering (Ok \<lparr>data_status = ''SUCCESS'', data_url = Some ''https://x/img.jpg'', data_message = None\<rparr>)"
      "clock 2000"
      "\<lparr>prompt_input = [],
        images = [\<lparr>id' = ''abc123'', prompt = ''a red fox'', status = Loading, url = None,
                   error = None, startTime = 1000, completionTime = None\<rparr>],
        pendingJobs = [''abc123'']\<rparr>"]
    terminal_record_shielded_by_working_set [where j = "''abc123''" and s =
      "\<lparr>prompt_input = [],
        images = [\<lparr>id' = ''abc123'', prompt = ''a red fox'', status = Complete,
                   url = Some ''https://x/img.jpg'', error = None, startTime = 1000,
                   completionTime = Some 2000\<rparr>],
        pendingJobs = []\<rparr>"]
  by (simp add: answering_def clock_def tick_def pollingEffect_def intervalCallback_def
      pollRound_def pollIteration_def malformed_def markComplete_def markError_def Let_def)

text \<open>
  C4 as stated fails. A job is submitted and the gateway reports \<^verbatim>\<open>ERROR\<close>: the record is
  in the terminal state \<^verbatim>\<open>error\<close>. An interval callback that captured the id before
  then gets \<^verbatim>\<open>SUCCESS\<close> for it: the record becomes \<^verbatim>\<open>complete\<close>, with a url and a new
  completion time next to the old error message.
\<close>

theorem stray_response_mutates_terminal_record:
  "images (run [SetPrompt ''a red fox'', Generate (Ok (Some ''abc123'')) 1000,
               Tick (answering (Ok \<lparr>data_status = ''ERROR'', data_url = None, data_message = Some ''OOM''\<rparr>)) (clock 2000)]
            (initialState []))
     = [\<lparr>id' = ''abc123'', prompt = ''a red fox'', status = Error, url = None,
         error = Some ''OOM'', startTime = 1000, completionTime = Some 2000\<rparr>]
   \<and> images (run [SetPrompt ''a red fox'', Generate (Ok (Some ''abc123'')) 1000,
               Tick (answering (Ok \<lparr>data_status = ''ERROR'', data_url = None, data_message = Some ''OOM''\<rparr>)) (clock 2000),
               Callback [''abc123'']
                 (answering (Ok \<lparr>data_status = ''SUCCESS'', data_url = Some ''https://x/img.jpg'', data_message = None\<rparr>))
                 (clock 3000)]
            (initialState []))
     = [\<lparr>id' = ''abc123'', prompt = ''a red fox'', status = Complete,
         url = Some ''https://x/img.jpg'', error = Some ''OOM'', startTime = 1000,
         completionTime = Some 3000\<rparr>]"
  by (simp add: initialState_def generateImage_def trim_def isWhiteSpace_def answering_def
      clock_def tick_def pollingEffect_def intervalCallback_def pollRound_def pollIteration_def
      malformed_def markComplete_def markError_def Let_def)

section \<open>The ids in the store\<close>

lemma callback_ids:
  "map id' (images (intervalCallback jobs fetch now s)) = map id' (images s)"
  by (simp add: intervalCallback_images reconcileAll_id)

lemma tick_ids: "map id' (images (tick fetch now s)) = map id' (images s)"
  by (simp add: tick_eq callback_ids)

lemma generate_ids:
  "map id' (images (new_state (generateImage response now s))) = map id' (images s)
   \<or> (\<exists>jobId. response = Ok (Some jobId) \<and> jobId \<noteq> []
        \<and> map id' (images (new_state (generateImage response now s))) = jobId # map id' (images s))"
  by (cases response) (auto simp: generateImage_def Let_def split: option.splits)

section \<open>Uniqueness of ids\<close>

text \<open>
  Every submission of the session gets an id from the gateway that no record of the
  store has at that moment.
\<close>

fun gatewayIdsFresh :: "event list \<Rightarrow> home_state \<Rightarrow> bool" where
  "gatewayIdsFresh [] s = True"
| "gatewayIdsFresh (e # es) s =
     ((case e of
         Generate response now \<Rightarrow>
           (case response of Ok (Some jobId) \<Rightarrow> jobId \<notin> set (map id' (images s)) | _ \<Rightarrow> True)
       | _ \<Rightarrow> True)
      \<and> gatewayIdsFresh es (step e s))"

lemma step_distinct:
  assumes "distinct (map id' (images s))" and "gatewayIdsFresh [e] s"
  shows "distinct (map id' (images (step e s)))"
proof (cases e)
  case (Tick fetch now)
  then show ?thesis using assms(1) by (simp only: step.simps tick_ids simp_thms)
next
  case (Callback jobs fetch now)
  then show ?thesis using assms(1) by (simp only: step.simps callback_ids simp_thms)
next
  case (Generate response now)
  have st: "step e s = new_state (generateImage response now s)"
    using Generate by simp
  from generate_ids [of response now s] show ?thesis
  proof
    assume h: "map id' (images (new_state (generateImage response now s))) = map id' (images s)"
    show ?thesis
      unfolding st h by (rule assms(1))
  next
    assume "\<exists>jobId. response = Ok (Some jobId) \<and> jobId \<noteq> []
        \<and> map id' (images (new_state (generateImage response now s))) = jobId # map id' (images s)"
    then show ?thesis
    proof (elim exE conjE)
      fix jobId
      assume r: "response = Ok (Some jobId)"
        and m: "map id' (images (new_state (generateImage response now s))) = jobId # map id' (images s)"
      have "jobId \<notin> set (map id' (images s))"
        using assms(2) unfolding Generate r by simp
      then show ?thesis
        unfolding st m using assms(1) by simp
    qed
  qed
next
  case (Delete i)
  then show ?thesis using assms(1) by (simp add: deleteImage_def distinct_map_filter)
next
  case (SetPrompt p)
  then show ?thesis using assms(1) by simp
qed

text \<open>
  C9, as the code has it. \<^verbatim>\<open>generateImage\<close> prepends the new record without looking
  for its id in the store, and nothing in the code is a \<^verbatim>\<open>DuplicateIdError\<close>. The ids
  of the store stay pairwise different as long as the gateway issues to every submission
  an id the store does not hold: from a store with pairwise different ids, every
  session of submissions, polling rounds and deletions with such ids ends in one.
\<close>

theorem ids_unique_while_gateway_ids_fresh:
  assumes "distinct (map id' (images s))" and "gatewayIdsFresh es s"
  shows "distinct (map id' (images (run es s)))"
  using assms
proof (induction es arbitrary: s)
  case Nil
  then show ?case by simp
next
  case (Cons e es)
  from Cons.prems have "distinct (map id' (images (step e s)))"
    by (intro step_distinct) simp_all
  moreover from Cons.prems have "gatewayIdsFresh es (step e s)"
    by simp
  ultimately show ?case using Cons.IH by simp
qed

theorem ids_unique_while_gateway_ids_fresh_witness:
  "gatewayIdsFresh [SetPrompt ''a red fox'', Generate (Ok (Some ''abc123'')) 1000,
       SetPrompt ''a blue fox'', Generate (Ok (Some ''def456'')) 2000] (initialState [])
   \<and> map id' (images (run [SetPrompt ''a red fox'', Generate (Ok (Some ''abc123'')) 1000,
       SetPrompt ''a blue fox'', Generate (Ok (Some ''def456'')) 2000] (initialState [])))
     = [''def456'', ''abc123'']"
  using ids_unique_while_gateway_ids_fresh [of "initialState []"
      "[SetPrompt ''a red fox'', Generate (Ok (Some ''abc123'')) 1000,
        SetPrompt ''a blue fox'', Generate (Ok (Some ''def456'')) 2000]"]
  by (simp add: initialState_def generateImage_def trim_def isWhiteSpace_def Let_def)

text \<open>
  C9 as stated fails: when the gateway answers two submissions with the same id, both
  succeed and the store holds two records with that id.
\<close>

theorem duplicate_id_appended:
  "map id' (images (run [SetPrompt ''a red fox'', Generate (Ok (Some ''abc123'')) 1000,
       SetPrompt ''a blue fox'', Generate (Ok (Some ''abc123'')) 2000] (initialState [])))
     = [''abc123'', ''abc123'']
   \<and> alerts (generateImage (Ok (Some ''abc123'')) 2000
        (step (SetPrompt ''a blue fox'')
          (run [SetPrompt ''a red fox'', Generate (Ok (Some ''abc123'')) 1000] (initialState []))))
     = []"
  by (simp add: initialState_def generateImage_def trim_def isWhiteSpace_def Let_def)

section \<open>The page between events: intervals and rounds in flight\<close>

text \<open>
  An interval callback is asynchronous: it runs up to the \<^verbatim>\<open>fetch\<close> of a status query,
  waits for the response, and goes on from there; meanwhile the user acts and the
  interval fires again. A round in flight is a callback waiting for a response: the id
  it queried, the ids of its captured array after that one, and its \<^verbatim>\<open>completedJobs\<close>
  so far. The section takes the component between its events: a submission that is
  answered, a click, a firing of an interval, the arrival of a response; each with the
  state updates it queues and the run of the effect that follows them.
\<close>

record inflight =
  awaited :: string
  remaining :: "string list"
  completed :: "string list"

text \<open>
  The page: the state of the component, the intervals registered with \<^verbatim>\<open>setInterval\<close>
  (each under its \<^verbatim>\<open>intervalId\<close>), the id the cleanup function of the last run of the
  effect clears (none when the effect returned early), the next \<^verbatim>\<open>intervalId\<close>, the
  rounds in flight, and the ids status queries were issued for, in order.
\<close>

record page =
  home :: home_state
  intervals :: "(nat \<times> timer) list"
  cleanupId :: "nat option"
  nextId :: nat
  rounds :: "inflight list"
  queries :: "string list"

definition clearInterval :: "nat \<Rightarrow> page \<Rightarrow> page" where
  "clearInterval i p = p\<lparr>intervals := filter (\<lambda>t. fst t \<noteq> i) (intervals p)\<rparr>"

text \<open>
  The effect on \<^verbatim>\<open>[pendingJobs]\<close> runs again after \<^verbatim>\<open>pendingJobs\<close> was set: first the
  cleanup of its last run (\<^verbatim>\<open>clearInterval(intervalId)\<close>), then its body. A callback
  already in flight is not stopped by \<^verbatim>\<open>clearInterval\<close>.
\<close>

definition runEffect :: "page \<Rightarrow> page" where
  "runEffect p =
     (let p1 = (case cleanupId p of None \<Rightarrow> p | Some i \<Rightarrow> clearInterval i p) in
      case pollingEffect (pendingJobs (home p1)) of
        None \<Rightarrow> p1\<lparr>cleanupId := None\<rparr>
      | Some t \<Rightarrow>
          p1\<lparr>intervals := intervals p1 @ [(nextId p1, t)],
             cleanupId := Some (nextId p1),
             nextId := Suc (nextId p1)\<rparr>)"

definition setImages :: "(GeneratedImage list \<Rightarrow> GeneratedImage list) \<Rightarrow> page \<Rightarrow> page" where
  "setImages f p = p\<lparr>home := (home p)\<lparr>images := f (images (home p))\<rparr>\<rparr>"

definition setPendingJobs :: "(string list \<Rightarrow> string list) \<Rightarrow> page \<Rightarrow> page" where
  "setPendingJobs f p =
     runEffect (p\<lparr>home := (home p)\<lparr>pendingJobs := f (pendingJobs (home p))\<rparr>\<rparr>)"

text \<open>
  The loop from an id of the captured array on, with \<^verbatim>\<open>completedJobs\<close> as it stands: a
  malformed id is pushed and the loop continues; at any other id the query is issued and
  the callback waits; after the last id \<^verbatim>\<open>pendingJobs\<close> is filtered and the callback ends.
\<close>

fun continueLoop :: "string list \<Rightarrow> string list \<Rightarrow> page \<Rightarrow> page" where
  "continueLoop [] done p =
     (if length done > 0
      then setPendingJobs (filter (\<lambda>jobId. jobId \<notin> set done)) p
      else p)"
| "continueLoop (jobId # rest) done p =
     (if malformed jobId then continueLoop rest (done @ [jobId]) p
      else p\<lparr>rounds := rounds p @ [\<lparr>awaited = jobId, remaining = rest, completed = done\<rparr>],
             queries := queries p @ [jobId]\<rparr>)"

text \<open>The interval registered under \<open>i\<close> fires: its callback starts with the array it captured.\<close>

definition fire :: "nat \<Rightarrow> page \<Rightarrow> page" where
  "fire i p =
     (case map_of (intervals p) i of
        None \<Rightarrow> p
      | Some (Interval ms jobs) \<Rightarrow> continueLoop jobs [] p)"

text \<open>
  The response to the query of the \<open>k\<close>-th round in flight arrives (\<^verbatim>\<open>fetch\<close> and the body
  read from it, responses in any order): the callback handles it as in
  \<^const>\<open>pollIteration\<close> and goes on with its loop.
\<close>

definition respond :: "nat \<Rightarrow> status_response fetched \<Rightarrow> int \<Rightarrow> page \<Rightarrow> page" where
  "respond k response now p =
     (if k < length (rounds p) then
        let r = rounds p ! k;
            p1 = p\<lparr>rounds := take k (rounds p) @ drop (Suc k) (rounds p)\<rparr> in
        (case response of
           Ok data \<Rightarrow>
             if data_status data = ''SUCCESS'' then
               continueLoop (remaining r) (completed r @ [awaited r])
                 (setImages (map (markComplete (awaited r) (data_url data) now)) p1)
             else if data_status data = ''ERROR'' then
               continueLoop (remaining r) (completed r @ [awaited r])
                 (setImages (map (markError (awaited r) (data_message data) now)) p1)
             else continueLoop (remaining r) (completed r) p1
         | _ \<Rightarrow> continueLoop (remaining r) (completed r) p1)
      else p)"

text \<open>
  \<^verbatim>\<open>generateImage\<close> on the page: the effect runs again when \<^verbatim>\<open>pendingJobs\<close> was set, which
  is when the array is another one afterwards.
\<close>

definition submit :: "string option fetched \<Rightarrow> int \<Rightarrow> page \<Rightarrow> page" where
  "submit response now p =
     (let h = new_state (generateImage response now (home p)) in
      if pendingJobs h = pendingJobs (home p) then p\<lparr>home := h\<rparr>
      else runEffect (p\<lparr>home := h\<rparr>))"

text \<open>
  A click on the delete button of a record with id \<open>i\<close>. The button is rendered on a
  complete record only; the click calls \<^verbatim>\<open>deleteImage\<close> with the id.
\<close>

definition clickDelete :: "string \<Rightarrow> page \<Rightarrow> page" where
  "clickDelete i p =
     (if \<exists>img \<in> set (images (home p)). id' img = i \<and> status img = Complete
      then p\<lparr>home := deleteImage i (home p)\<rparr>
      else p)"

text \<open>
  The events: typing into the input, a submission with the answer of the gateway and
  \<^verbatim>\<open>Date.now()\<close>, a click on a delete button, a firing of the interval registered under
  an id, and the arrival of the response a round in flight waits for.
\<close>

datatype page_event =
    Typing string
  | Submit "string option fetched" int
  | ClickDelete string
  | Fire nat
  | Respond nat "status_response fetched" int

fun pageStep :: "page_event \<Rightarrow> page \<Rightarrow> page" where
  "pageStep (Typing t) p = p\<lparr>home := (home p)\<lparr>prompt_input := t\<rparr>\<rparr>"
| "pageStep (Submit response now) p = submit response now p"
| "pageStep (ClickDelete i) p = clickDelete i p"
| "pageStep (Fire i) p = fire i p"
| "pageStep (Respond k response now) p = respond k response now p"

fun pageRun :: "page_event list \<Rightarrow> page \<Rightarrow> page" where
  "pageRun [] p = p"
| "pageRun (e # es) p = pageRun es (pageStep e p)"

text \<open>
  The page after mounting with the store \<open>loaded\<close>: the state is initialised and the effect
  runs for the first time.
\<close>

definition mountPage :: "GeneratedImage list \<Rightarrow> page" where
  "mountPage loaded =
     runEffect \<lparr>home = initialState loaded, intervals = [], cleanupId = None, nextId = 0,
                rounds = [], queries = []\<rparr>"

definition success :: "string \<Rightarrow> status_response fetched" where
  "success u = Ok \<lparr>data_status = ''SUCCESS'', data_url = Some u, data_message = None\<rparr>"

lemmas page_defs = mountPage_def initialState_def submit_def generateImage_def trim_def isWhiteSpace_def
  runEffect_def pollingEffect_def clearInterval_def fire_def respond_def setImages_def setPendingJobs_def
  clickDelete_def deleteImage_def malformed_def markComplete_def markError_def success_def Let_def

subsection \<open>One interval at most\<close>

text \<open>
  At most one interval is registered, the one the cleanup of the last run of the effect
  will clear; it is there if and only if \<^verbatim>\<open>pendingJobs\<close> is not empty, and it has captured
  \<^verbatim>\<open>pendingJobs\<close>.
\<close>

definition oneInterval :: "page \<Rightarrow> bool" where
  "oneInterval p =
     (intervals p =
        (case cleanupId p of
           None \<Rightarrow> []
         | Some i \<Rightarrow> [(i, Interval 1000 (pendingJobs (home p)))])
      \<and> (cleanupId p = None) = (pendingJobs (home p) = []))"

lemma runEffect_oneInterval:
  assumes "intervals p = (case cleanupId p of None \<Rightarrow> [] | Some i \<Rightarrow> [(i, t)])"
  shows "oneInterval (runEffect p)"
  using assms
  by (cases "cleanupId p")
    (auto simp: oneInterval_def runEffect_def clearInterval_def pollingEffect_def Let_def)

lemma runEffect_home [simp]: "home (runEffect p) = home p"
  by (cases "cleanupId p")
    (auto simp: runEffect_def clearInterval_def pollingEffect_def Let_def split: option.splits)

lemma runEffect_rounds [simp]: "rounds (runEffect p) = rounds p"
  by (cases "cleanupId p")
    (auto simp: runEffect_def clearInterval_def pollingEffect_def Let_def split: option.splits)

lemma runEffect_queries [simp]: "queries (runEffect p) = queries p"
  by (cases "cleanupId p")
    (auto simp: runEffect_def clearInterval_def pollingEffect_def Let_def split: option.splits)

lemma setPendingJobs_oneInterval: "oneInterval p \<Longrightarrow> oneInterval (setPendingJobs f p)"
  unfolding setPendingJobs_def
  by (rule runEffect_oneInterval [where t = "Interval 1000 (pendingJobs (home p))"])
    (simp add: oneInterval_def)

lemma setPendingJobs_home [simp]:
  "home (setPendingJobs f p) = (home p)\<lparr>pendingJobs := f (pendingJobs (home p))\<rparr>"
  by (simp add: setPendingJobs_def)

lemma setPendingJobs_rounds [simp]: "rounds (setPendingJobs f p) = rounds p"
  by (simp add: setPendingJobs_def)

lemma oneInterval_cong:
  assumes "oneInterval p" and "intervals q = intervals p" and "cleanupId q = cleanupId p"
    and "pendingJobs (home q) = pendingJobs (home p)"
  shows "oneInterval q"
  using assms unfolding oneInterval_def by (cases "cleanupId p") simp_all

lemma continueLoop_oneInterval: "oneInterval p \<Longrightarrow> oneInterval (continueLoop todo done p)"
proof (induction todo arbitrary: "done")
  case Nil
  then show ?case by (simp add: setPendingJobs_oneInterval)
next
  case (Cons jobId rest)
  show ?case
  proof (cases "malformed jobId")
    case True
    with Cons show ?thesis by simp
  next
    case False
    with Cons.prems show ?thesis
      by (auto intro: oneInterval_cong)
  qed
qed

lemma pageStep_oneInterval:
  assumes "oneInterval p"
  shows "oneInterval (pageStep e p)"
proof (cases e)
  case (Typing t)
  with assms show ?thesis by (auto intro: oneInterval_cong)
next
  case (Submit response now)
  show ?thesis
  proof (cases "pendingJobs (new_state (generateImage response now (home p))) = pendingJobs (home p)")
    case True
    with assms Submit show ?thesis
      by (auto simp: submit_def Let_def intro: oneInterval_cong)
  next
    case False
    have "oneInterval (runEffect (p\<lparr>home := new_state (generateImage response now (home p))\<rparr>))"
      by (rule runEffect_oneInterval [where t = "Interval 1000 (pendingJobs (home p))"])
        (use assms in \<open>simp add: oneInterval_def\<close>)
    with False Submit show ?thesis
      by (simp add: submit_def Let_def)
  qed
next
  case (ClickDelete i)
  with assms show ?thesis
    by (auto simp: clickDelete_def deleteImage_def intro: oneInterval_cong)
next
  case (Fire i)
  with assms show ?thesis
    by (auto simp: fire_def continueLoop_oneInterval split: option.splits timer.splits)
next
  case (Respond k response now)
  have 1: "oneInterval (p\<lparr>rounds := rs\<rparr>)" for rs
    using assms by (auto intro: oneInterval_cong)
  have 2: "oneInterval (setImages f (p\<lparr>rounds := rs\<rparr>))" for f rs
    using assms by (auto simp: setImages_def intro: oneInterval_cong)
  show ?thesis
    unfolding Respond pageStep.simps respond_def Let_def
    by (cases response) (auto intro!: continueLoop_oneInterval 1 2 simp: assms)
qed

lemma pageRun_oneInterval: "oneInterval p \<Longrightarrow> oneInterval (pageRun es p)"
  by (induction es arbitrary: p) (simp_all add: pageStep_oneInterval)

lemma mountPage_oneInterval: "oneInterval (mountPage loaded)"
  unfolding mountPage_def by (rule runEffect_oneInterval) simp

lemma oneInterval_timers:
  assumes "oneInterval p"
  shows "map snd (intervals p) =
    (if pendingJobs (home p) = [] then [] else [Interval 1000 (pendingJobs (home p))])"
  using assms by (cases "cleanupId p") (auto simp: oneInterval_def)

subsection \<open>A round that runs to completion\<close>

text \<open>
  The responses to the queries of one round, in the order of the captured array, each
  arriving before anything else happens: \<open>fetch k jobId\<close> answers the query of the \<open>k\<close>-th
  iteration and \<open>now k\<close> is its \<^verbatim>\<open>Date.now()\<close>, as in \<^const>\<open>pollLoop\<close>.
\<close>

fun answers :: "(nat \<Rightarrow> string \<Rightarrow> status_response fetched) \<Rightarrow> (nat \<Rightarrow> int) \<Rightarrow> nat \<Rightarrow> string list \<Rightarrow> page_event list" where
  "answers fetch now k [] = []"
| "answers fetch now k (jobId # rest) =
     (if malformed jobId then [] else [Respond 0 (fetch k jobId) (now k)])
     @ answers fetch now (Suc k) rest"

lemma respond_alone:
  assumes "rounds p = []" and "\<not> malformed j"
  shows "respond 0 response t
           (p\<lparr>rounds := rounds p @ [\<lparr>awaited = j, remaining = rest, completed = fin\<rparr>],
              queries := queries p @ [j]\<rparr>) =
         (if terminal response
          then continueLoop rest (fin @ [j])
                 (setImages (map (reconcile response t j))
                    (p\<lparr>queries := queries p @ [j], rounds := []\<rparr>))
          else continueLoop rest fin (p\<lparr>queries := queries p @ [j], rounds := []\<rparr>))"
proof -
  have c: "reconcile (Ok d) t j = markComplete j (data_url d) t" if "data_status d = ''SUCCESS''" for d
    using that assms(2) by (simp add: fun_eq_iff reconcile_def)
  have e: "reconcile (Ok d) t j = markError j (data_message d) t" if "data_status d = ''ERROR''" for d
    using that assms(2) by (simp add: fun_eq_iff reconcile_def)
  show ?thesis
    using assms by (cases response) (simp_all add: respond_def terminal_def Let_def c e)
qed

lemma round_to_completion:
  assumes "rounds p = []"
  shows "home (pageRun (answers fetch now k todo) (continueLoop todo fin p)) =
           (home p)\<lparr>images := map (reconcileAll fetch now k todo) (images (home p)),
                    pendingJobs :=
                      (if length (fin @ retired fetch k todo) > 0
                       then filter (\<lambda>jobId. jobId \<notin> set (fin @ retired fetch k todo)) (pendingJobs (home p))
                       else pendingJobs (home p))\<rparr>
         \<and> rounds (pageRun (answers fetch now k todo) (continueLoop todo fin p)) = []"
  using assms
proof (induction todo arbitrary: k fin p)
  case Nil
  then show ?case by (simp add: map_idI)
next
  case (Cons j rest)
  show ?case
  proof (cases "malformed j")
    case True
    then show ?thesis
      using Cons.IH [of p "Suc k" "fin @ [j]"] Cons.prems
      by (simp add: retires_def reconcile_malformed)
  next
    case False
    define p1 where "p1 = p\<lparr>queries := queries p @ [j], rounds := []\<rparr>"
    have r1: "rounds p1 = []" and h1: "home p1 = home p"
      by (simp_all add: p1_def)
    show ?thesis
    proof (cases "terminal (fetch k j)")
      case True
      define p2 where "p2 = setImages (map (reconcile (fetch k j) (now k) j)) p1"
      have r2: "rounds p2 = []"
        and h2: "home p2 = (home p)\<lparr>images := map (reconcile (fetch k j) (now k) j) (images (home p))\<rparr>"
        by (simp_all add: p2_def setImages_def r1 h1)
      have "pageRun (answers fetch now k (j # rest)) (continueLoop (j # rest) fin p) =
            pageRun (answers fetch now (Suc k) rest) (continueLoop rest (fin @ [j]) p2)"
        using False True respond_alone [OF Cons.prems False, of "fetch k j" "now k" rest fin]
        by (simp add: p2_def p1_def)
      then show ?thesis
        using Cons.IH [OF r2, of "Suc k" "fin @ [j]"] True False
        by (simp add: h2 retires_def)
    next
      case nt: False
      have "pageRun (answers fetch now k (j # rest)) (continueLoop (j # rest) fin p) =
            pageRun (answers fetch now (Suc k) rest) (continueLoop rest fin p1)"
        using False nt respond_alone [OF Cons.prems False, of "fetch k j" "now k" rest fin]
        by (simp add: p1_def)
      moreover have "reconcile (fetch k j) (now k) j = (\<lambda>img. img)"
        using nt by (auto simp: fun_eq_iff reconcile_not_retired retires_def False)
      ultimately show ?thesis
        using Cons.IH [OF r1, of "Suc k" fin] nt False
        by (simp add: h1 retires_def)
    qed
  qed
qed

text \<open>
  A firing whose queries are all answered before anything else happens is the round
  \<^const>\<open>tick\<close> takes in one step.
\<close>

lemma tick_is_round_to_completion:
  assumes "oneInterval p" and "rounds p = []" and "cleanupId p = Some i"
  shows "home (pageRun (Fire i # answers fetch now 0 (pendingJobs (home p))) p) = tick fetch now (home p)"
proof -
  have "intervals p = [(i, Interval 1000 (pendingJobs (home p)))]"
    using assms by (simp add: oneInterval_def)
  then have "fire i p = continueLoop (pendingJobs (home p)) [] p"
    by (simp add: fire_def)
  then have "home (pageRun (Fire i # answers fetch now 0 (pendingJobs (home p))) p) =
      (home p)\<lparr>images := map (reconcileAll fetch now 0 (pendingJobs (home p))) (images (home p)),
               pendingJobs := filter (\<lambda>jobId. jobId \<notin> set (retired fetch 0 (pendingJobs (home p)))) (pendingJobs (home p))\<rparr>"
    using round_to_completion [OF assms(2), of fetch now 0 "pendingJobs (home p)" "[]"]
    by simp
  also have "\<dots> = tick fetch now (home p)"
    by (simp add: tick_eq intervalCallback_images intervalCallback_pending intervalCallback_prompt)
  finally show ?thesis .
qed

subsection \<open>The working set and the pending records\<close>

text \<open>The ids of the pending records, and the ids the rounds in flight have completed.\<close>

definition loadingIds :: "home_state \<Rightarrow> string set" where
  "loadingIds h = id' ` {img \<in> set (images h). status img = Loading}"

definition retiring :: "page \<Rightarrow> string set" where
  "retiring p = (\<Union>r \<in> set (rounds p). set (completed r))"

text \<open>
  Every pending record has its id in \<^verbatim>\<open>pendingJobs\<close>, and that id is well-formed; every id
  of \<^verbatim>\<open>pendingJobs\<close> has a pending record or is completed by a round in flight (or is in
  \<open>done\<close>, the \<^verbatim>\<open>completedJobs\<close> of the callback that is running); and no completed id has
  a pending record.
\<close>

definition tracks :: "string list \<Rightarrow> page \<Rightarrow> bool" where
  "tracks done p =
     (loadingIds (home p) \<subseteq> set (pendingJobs (home p))
      \<and> (\<forall>j \<in> loadingIds (home p). \<not> malformed j)
      \<and> set (pendingJobs (home p)) \<subseteq> loadingIds (home p) \<union> retiring p \<union> set done
      \<and> (retiring p \<union> set done) \<inter> loadingIds (home p) = {})"

text \<open>
  The event is one of an orderly session: the gateway does not answer a submission with
  the string \<^verbatim>\<open>undefined\<close> nor with an id that a round in flight has completed; and the
  record whose delete button is clicked shares its id with no pending record.
\<close>

definition allowed :: "page_event \<Rightarrow> page \<Rightarrow> bool" where
  "allowed e p =
     (case e of
        Submit response now \<Rightarrow>
          (case response of
             Ok (Some j) \<Rightarrow> j \<noteq> ''undefined'' \<and> (\<forall>r \<in> set (rounds p). j \<notin> set (completed r))
           | _ \<Rightarrow> True)
      | ClickDelete i \<Rightarrow> (\<forall>img \<in> set (images (home p)). id' img = i \<longrightarrow> status img \<noteq> Loading)
      | _ \<Rightarrow> True)"

fun orderly :: "page_event list \<Rightarrow> page \<Rightarrow> bool" where
  "orderly [] p = True"
| "orderly (e # es) p = (allowed e p \<and> orderly es (pageStep e p))"

lemma loadingIds_pendingJobs [simp]: "loadingIds (h\<lparr>pendingJobs := js\<rparr>) = loadingIds h"
  by (simp add: loadingIds_def)

lemma loadingIds_prompt [simp]: "loadingIds (h\<lparr>prompt_input := t\<rparr>) = loadingIds h"
  by (simp add: loadingIds_def)

lemma loadingIds_map:
  assumes "\<And>img. id' (f img) = id' img"
    and "\<And>img. status (f img) = Loading \<longleftrightarrow> status img = Loading \<and> id' img \<noteq> j"
  shows "loadingIds (h\<lparr>images := map f (images h)\<rparr>) = loadingIds h - {j}"
proof (intro set_eqI iffI)
  fix x
  assume "x \<in> loadingIds (h\<lparr>images := map f (images h)\<rparr>)"
  then obtain img where "img \<in> set (images h)" and "status (f img) = Loading" and "x = id' (f img)"
    by (auto simp: loadingIds_def)
  then show "x \<in> loadingIds h - {j}"
    using assms by (auto simp: loadingIds_def)
next
  fix x
  assume "x \<in> loadingIds h - {j}"
  then obtain img where i: "img \<in> set (images h)" and "status img = Loading" and "x = id' img"
    and "x \<noteq> j"
    by (auto simp: loadingIds_def)
  then have "status (f img) = Loading" and "id' (f img) = x"
    using assms by simp_all
  with i have "f img \<in> {img \<in> set (images (h\<lparr>images := map f (images h)\<rparr>)). status img = Loading}"
    by simp
  then have "id' (f img) \<in> loadingIds (h\<lparr>images := map f (images h)\<rparr>)"
    unfolding loadingIds_def by (rule imageI)
  then show "x \<in> loadingIds (h\<lparr>images := map f (images h)\<rparr>)"
    by (simp only: \<open>id' (f img) = x\<close>)
qed

lemma loadingIds_markComplete:
  "loadingIds (h\<lparr>images := map (markComplete j u now) (images h)\<rparr>) = loadingIds h - {j}"
  by (rule loadingIds_map) (auto simp: markComplete_def)

lemma loadingIds_markError:
  "loadingIds (h\<lparr>images := map (markError j m now) (images h)\<rparr>) = loadingIds h - {j}"
  by (rule loadingIds_map) (auto simp: markError_def)

lemma loadingIds_deleteImage: "loadingIds (deleteImage i h) = loadingIds h - {i}"
  by (auto simp: loadingIds_def deleteImage_def)

lemma continueLoop_tracks: "tracks done p \<Longrightarrow> tracks [] (continueLoop todo done p)"
proof (induction todo arbitrary: "done")
  case Nil
  then show ?case
    by (auto simp: tracks_def retiring_def)
next
  case (Cons jobId rest)
  show ?case
  proof (cases "malformed jobId")
    case True
    with Cons.prems have "tracks (done @ [jobId]) p"
      by (auto simp: tracks_def)
    with True Cons.IH show ?thesis by simp
  next
    case False
    with Cons.prems show ?thesis
      by (auto simp: tracks_def retiring_def)
  qed
qed

lemma retiring_without:
  assumes "k < length (rounds p)"
  shows "retiring p =
    retiring (p\<lparr>rounds := take k (rounds p) @ drop (Suc k) (rounds p)\<rparr>) \<union> set (completed (rounds p ! k))"
proof -
  have "set (rounds p) = set (take k (rounds p) @ drop (Suc k) (rounds p)) \<union> {rounds p ! k}"
    using assms by (subst (1) id_take_nth_drop [OF assms]) auto
  then show ?thesis
    by (auto simp: retiring_def)
qed

lemma tracks_retire:
  assumes "tracks done p" and "loadingIds (home q) = loadingIds (home p) - {j}"
    and "pendingJobs (home q) = pendingJobs (home p)" and "retiring q = retiring p"
  shows "tracks (done @ [j]) q"
  using assms(1) unfolding tracks_def assms(2,3,4) by auto

lemma respond_tracks:
  assumes "tracks [] p"
  shows "tracks [] (respond k response now p)"
proof (cases "k < length (rounds p)")
  case False
  with assms show ?thesis by (simp add: respond_def)
next
  case True
  define r where "r = rounds p ! k"
  define p1 where "p1 = p\<lparr>rounds := take k (rounds p) @ drop (Suc k) (rounds p)\<rparr>"
  have rt: "retiring p = retiring p1 \<union> set (completed r)"
    unfolding r_def p1_def using True by (rule retiring_without)
  have h1: "home p1 = home p"
    by (simp add: p1_def)
  have t1: "tracks (completed r) p1"
    using assms unfolding tracks_def rt h1 by auto
  have t2: "tracks (completed r @ [awaited r]) (setImages (map (markComplete (awaited r) u now)) p1)" for u
    using t1 by (rule tracks_retire) (simp_all add: setImages_def loadingIds_markComplete retiring_def)
  have t3: "tracks (completed r @ [awaited r]) (setImages (map (markError (awaited r) m now)) p1)" for m
    using t1 by (rule tracks_retire) (simp_all add: setImages_def loadingIds_markError retiring_def)
  have "respond k response now p =
      (case response of
           Ok data \<Rightarrow>
             if data_status data = ''SUCCESS'' then
               continueLoop (remaining r) (completed r @ [awaited r])
                 (setImages (map (markComplete (awaited r) (data_url data) now)) p1)
             else if data_status data = ''ERROR'' then
               continueLoop (remaining r) (completed r @ [awaited r])
                 (setImages (map (markError (awaited r) (data_message data) now)) p1)
             else continueLoop (remaining r) (completed r) p1
         | _ \<Rightarrow> continueLoop (remaining r) (completed r) p1)"
    by (simp only: respond_def Let_def r_def p1_def True if_True)
  then show ?thesis
    using continueLoop_tracks [OF t1] continueLoop_tracks [OF t2] continueLoop_tracks [OF t3]
    by (cases response) simp_all
qed

lemma fire_tracks: "tracks [] p \<Longrightarrow> tracks [] (fire i p)"
  by (auto simp: fire_def continueLoop_tracks split: option.splits timer.splits)

lemma tracks_same:
  assumes "tracks done p" and "loadingIds (home q) = loadingIds (home p)"
    and "pendingJobs (home q) = pendingJobs (home p)" and "retiring q = retiring p"
  shows "tracks done q"
  using assms(1) unfolding tracks_def assms(2,3,4) .

lemma tracks_added:
  assumes "tracks [] p" and "loadingIds (home q) = insert j (loadingIds (home p))"
    and "set (pendingJobs (home q)) = insert j (set (pendingJobs (home p)))"
    and "retiring q = retiring p" and "\<not> malformed j" and "j \<notin> retiring p"
  shows "tracks [] q"
  using assms(1,5,6) unfolding tracks_def assms(2,3,4) by auto

lemma submit_tracks:
  assumes "tracks [] p" and "allowed (Submit response now) p"
  shows "tracks [] (submit response now p)"
proof (cases "\<exists>jobId. response = Ok (Some jobId) \<and> jobId \<noteq> [] \<and> trim (prompt_input (home p)) \<noteq> []")
  case True
  then obtain jobId where r: "response = Ok (Some jobId)" and ne: "jobId \<noteq> []"
    and t: "trim (prompt_input (home p)) \<noteq> []"
    by (elim exE conjE)
  define new where "new = \<lparr>id' = jobId, prompt = prompt_input (home p), status = Loading,
                                url = None, error = None, startTime = now,
                                completionTime = None\<rparr>"
  define h where "h = \<lparr>prompt_input = [], images = new # images (home p),
      pendingJobs = pendingJobs (home p) @ [jobId]\<rparr>"
  have g: "new_state (generateImage response now (home p)) = h"
    using r ne t by (simp add: generateImage_def Let_def h_def new_def)
  have "pendingJobs h \<noteq> pendingJobs (home p)"
    by (simp add: h_def)
  then have s: "submit response now p = runEffect (p\<lparr>home := h\<rparr>)"
    by (simp add: submit_def g Let_def)
  have wf: "\<not> malformed jobId"
    using assms(2) r ne by (simp add: allowed_def malformed_def)
  have fresh: "jobId \<notin> retiring p"
    using assms(2) r by (simp add: allowed_def retiring_def)
  have n: "status new = Loading" "id' new = jobId"
    by (simp_all add: new_def)
  have "{img \<in> set (new # images (home p)). status img = Loading}
      = insert new {img \<in> set (images (home p)). status img = Loading}"
    using n(1) by auto
  then have l: "loadingIds h = insert jobId (loadingIds (home p))"
    by (simp add: loadingIds_def h_def n(2))
  show ?thesis
    unfolding s using assms(1)
  proof (rule tracks_added)
    show "loadingIds (home (runEffect (p\<lparr>home := h\<rparr>))) = insert jobId (loadingIds (home p))"
      by (simp add: l)
    show "set (pendingJobs (home (runEffect (p\<lparr>home := h\<rparr>)))) = insert jobId (set (pendingJobs (home p)))"
      by (simp add: h_def)
    show "retiring (runEffect (p\<lparr>home := h\<rparr>)) = retiring p"
      by (simp add: retiring_def)
  qed (rule wf, rule fresh)
next
  case False
  then have "new_state (generateImage response now (home p)) = home p"
    by (cases response) (auto simp: generateImage_def Let_def split: option.splits)
  then have "submit response now p = p"
    by (simp add: submit_def Let_def)
  with assms(1) show ?thesis by simp
qed

lemma clickDelete_tracks:
  assumes "tracks [] p" and "allowed (ClickDelete i) p"
  shows "tracks [] (clickDelete i p)"
proof (cases "\<exists>img \<in> set (images (home p)). id' img = i \<and> status img = Complete")
  case False
  then have "clickDelete i p = p"
    unfolding clickDelete_def by (simp only: if_False)
  with assms(1) show ?thesis by simp
next
  case True
  then have c: "clickDelete i p = p\<lparr>home := deleteImage i (home p)\<rparr>"
    unfolding clickDelete_def by (simp only: if_True)
  have "i \<notin> loadingIds (home p)"
    using assms(2) by (auto simp: allowed_def loadingIds_def)
  then have l: "loadingIds (deleteImage i (home p)) = loadingIds (home p)"
    by (simp add: loadingIds_deleteImage)
  have pj: "pendingJobs (deleteImage i (home p)) = pendingJobs (home p)"
    by (simp add: deleteImage_def)
  show ?thesis
    unfolding c using assms(1)
    by (rule tracks_same) (simp_all add: l pj retiring_def)
qed

lemma pageStep_tracks:
  assumes "tracks [] p" and "allowed e p"
  shows "tracks [] (pageStep e p)"
proof (cases e)
  case (Typing t)
  show ?thesis
    unfolding Typing pageStep.simps using assms(1)
    by (rule tracks_same) (simp_all add: retiring_def)
next
  case (Submit response now)
  with assms show ?thesis by (simp add: submit_tracks)
next
  case (ClickDelete i)
  with assms show ?thesis by (simp add: clickDelete_tracks)
next
  case (Fire i)
  with assms show ?thesis by (simp add: fire_tracks)
next
  case (Respond k response now)
  with assms show ?thesis by (simp add: respond_tracks)
qed

lemma pageRun_tracks: "tracks [] p \<Longrightarrow> orderly es p \<Longrightarrow> tracks [] (pageRun es p)"
  by (induction es arbitrary: p) (simp_all add: pageStep_tracks)

lemma mountPage_tracks:
  "\<forall>img \<in> set loaded. status img \<noteq> Loading \<Longrightarrow> tracks [] (mountPage loaded)"
  by (auto simp: tracks_def mountPage_def initialState_def loadingIds_def retiring_def)


lemma orderly_append: "orderly (es @ es') p \<longleftrightarrow> orderly es p \<and> orderly es' (pageRun es p)"
  by (induction es arbitrary: p) auto

subsection \<open>Deletion on the page\<close>











subsection \<open>The timer\<close>

text \<open>
  C2, as the code has it. The interval is registered if and only if \<^verbatim>\<open>pendingJobs\<close> is not
  empty, one at most, with \<^verbatim>\<open>pendingJobs\<close> as its captured array; \<^verbatim>\<open>pendingJobs\<close> is a
  state of its own that starts empty at every load. In an orderly session on a store
  loaded without pending records: while a record is pending the interval is registered;
  while the interval is registered, a record is pending or a round in flight has
  completed an id of \<^verbatim>\<open>pendingJobs\<close> that it will remove when it ends; so with no round in
  flight, the interval is registered if and only if a record is pending.
\<close>

theorem timer_follows_working_set:
  "map snd (intervals (pageRun es (mountPage loaded))) =
     (if pendingJobs (home (pageRun es (mountPage loaded))) = [] then []
      else [Interval 1000 (pendingJobs (home (pageRun es (mountPage loaded))))])
   \<and> ((\<forall>img \<in> set loaded. status img \<noteq> Loading) \<and> orderly es (mountPage loaded) \<longrightarrow>
        ((\<exists>img \<in> set (images (home (pageRun es (mountPage loaded)))). status img = Loading)
          \<longrightarrow> intervals (pageRun es (mountPage loaded)) \<noteq> [])
      \<and> (intervals (pageRun es (mountPage loaded)) \<noteq> []
          \<longrightarrow> (\<exists>img \<in> set (images (home (pageRun es (mountPage loaded)))). status img = Loading)
            \<or> (\<exists>r \<in> set (rounds (pageRun es (mountPage loaded))). \<exists>j \<in> set (completed r).
                  j \<in> set (pendingJobs (home (pageRun es (mountPage loaded))))))
      \<and> (rounds (pageRun es (mountPage loaded)) = []
          \<longrightarrow> (intervals (pageRun es (mountPage loaded)) \<noteq> [])
            = (\<exists>img \<in> set (images (home (pageRun es (mountPage loaded)))). status img = Loading)))"
proof -
  define q where "q = pageRun es (mountPage loaded)"
  have one: "oneInterval q"
    unfolding q_def by (intro pageRun_oneInterval mountPage_oneInterval)
  then have timers: "map snd (intervals q) =
      (if pendingJobs (home q) = [] then [] else [Interval 1000 (pendingJobs (home q))])"
    by (rule oneInterval_timers)
  then have iff: "intervals q \<noteq> [] \<longleftrightarrow> pendingJobs (home q) \<noteq> []"
    by (cases "pendingJobs (home q) = []") auto
  have rest: "((\<exists>img \<in> set (images (home q)). status img = Loading) \<longrightarrow> intervals q \<noteq> [])
      \<and> (intervals q \<noteq> [] \<longrightarrow> (\<exists>img \<in> set (images (home q)). status img = Loading)
            \<or> (\<exists>r \<in> set (rounds q). \<exists>j \<in> set (completed r). j \<in> set (pendingJobs (home q))))
      \<and> (rounds q = [] \<longrightarrow> (intervals q \<noteq> []) = (\<exists>img \<in> set (images (home q)). status img = Loading))"
    if "\<forall>img \<in> set loaded. status img \<noteq> Loading" and "orderly es (mountPage loaded)"
  proof -
    have t: "tracks [] q"
      unfolding q_def using that by (intro pageRun_tracks mountPage_tracks)
    have l: "(\<exists>img \<in> set (images (home q)). status img = Loading) \<longleftrightarrow> loadingIds (home q) \<noteq> {}"
      by (auto simp: loadingIds_def)
    have a: "loadingIds (home q) \<noteq> {} \<longrightarrow> pendingJobs (home q) \<noteq> []"
      using t by (auto simp: tracks_def)
    have b: "pendingJobs (home q) \<noteq> [] \<longrightarrow> loadingIds (home q) \<noteq> {}
        \<or> (\<exists>r \<in> set (rounds q). \<exists>j \<in> set (completed r). j \<in> set (pendingJobs (home q)))"
    proof
      assume "pendingJobs (home q) \<noteq> []"
      then obtain j where j: "j \<in> set (pendingJobs (home q))"
        by (cases "pendingJobs (home q)") auto
      with t have "j \<in> loadingIds (home q) \<or> j \<in> retiring q"
        by (auto simp: tracks_def)
      with j show "loadingIds (home q) \<noteq> {}
        \<or> (\<exists>r \<in> set (rounds q). \<exists>j \<in> set (completed r). j \<in> set (pendingJobs (home q)))"
        by (auto simp: retiring_def)
    qed
    from a b show ?thesis
      unfolding iff l by auto
  qed
  from timers rest show ?thesis
    unfolding q_def by blast
qed

theorem timer_follows_working_set_witness:
  "orderly [Typing ''a red fox'', Submit (Ok (Some ''abc123'')) 1000, Fire 0,
       Respond 0 (success ''https://x/img.jpg'') 2000, ClickDelete ''abc123'',
       Typing ''a blue fox'', Submit (Ok (Some ''def456'')) 3000]
     (mountPage [\<lparr>id' = ''xyz789'', prompt = ''a grey fox'', status = Complete,
        url = Some ''https://x/old.jpg'', error = None, startTime = 100, completionTime = Some 200\<rparr>])
   \<and> map snd (intervals (pageRun [Typing ''a red fox'', Submit (Ok (Some ''abc123'')) 1000, Fire 0,
       Respond 0 (success ''https://x/img.jpg'') 2000, ClickDelete ''abc123'',
       Typing ''a blue fox'', Submit (Ok (Some ''def456'')) 3000]
     (mountPage [\<lparr>id' = ''xyz789'', prompt = ''a grey fox'', status = Complete,
        url = Some ''https://x/old.jpg'', error = None, startTime = 100, completionTime = Some 200\<rparr>])))
     = [Interval 1000 [''def456'']]
   \<and> map status (images (home (pageRun [Typing ''a red fox'', Submit (Ok (Some ''abc123'')) 1000, Fire 0,
       Respond 0 (success ''https://x/img.jpg'') 2000, ClickDelete ''abc123'',
       Typing ''a blue fox'', Submit (Ok (Some ''def456'')) 3000]
     (mountPage [\<lparr>id' = ''xyz789'', prompt = ''a grey fox'', status = Complete,
        url = Some ''https://x/old.jpg'', error = None, startTime = 100, completionTime = Some 200\<rparr>]))))
     = [Loading, Complete]"
  using timer_follows_working_set [of
      "[Typing ''a red fox'', Submit (Ok (Some ''abc123'')) 1000, Fire 0,
       Respond 0 (success ''https://x/img.jpg'') 2000, ClickDelete ''abc123'',
       Typing ''a blue fox'', Submit (Ok (Some ''def456'')) 3000]"
      "[\<lparr>id' = ''xyz789'', prompt = ''a grey fox'', status = Complete,
        url = Some ''https://x/old.jpg'', error = None, startTime = 100, completionTime = Some 200\<rparr>]"]
  by (simp add: page_defs allowed_def)

text \<open>
  C2 as stated fails, in each of these sessions.
  \<^enum> The page is loaded with a store that holds a pending record (a job submitted before
    the reload): \<^verbatim>\<open>pendingJobs\<close> starts empty, a record is pending and no interval is
    registered.
  \<^enum> Two jobs are pending and the interval fires twice before any response. The first
    round learns that the first job is still running and that the second is done, and
    removes the second id; the second round then learns that the first job is done and
    marks its record, and waits for the second job: no record is pending, and the
    interval is registered until that round ends.
  \<^enum> The gateway answers a submission with the id \<^verbatim>\<open>undefined\<close>: the first firing drops
    the id without a query, and the record is pending with no interval.
  \<^enum> The gateway issues again an id that a round in flight has completed: the round
    removes the id when it ends, and the new record is pending with no interval.
  \<^enum> The gateway issues the id of a complete record again; the button of the complete
    record deletes both records: no record is pending, no round is in flight, and the
    interval stays.
\<close>

theorem pending_record_without_timer:
  "map status (images (home (mountPage
      [\<lparr>id' = ''abc123'', prompt = ''a red fox'', status = Loading, url = None,
        error = None, startTime = 1000, completionTime = None\<rparr>]))) = [Loading]
   \<and> intervals (mountPage
      [\<lparr>id' = ''abc123'', prompt = ''a red fox'', status = Loading, url = None,
        error = None, startTime = 1000, completionTime = None\<rparr>]) = []
   \<and> map status (images (home (pageRun [Typing ''a red fox'', Submit (Ok (Some ''abc123'')) 1000,
       Typing ''a blue fox'', Submit (Ok (Some ''def456'')) 2000, Fire 1, Fire 1,
       Respond 0 (Ok \<lparr>data_status = ''PENDING'', data_url = None, data_message = None\<rparr>) 3000,
       Respond 1 (success ''https://x/img2.jpg'') 3100,
       Respond 0 (success ''https://x/img1.jpg'') 3200] (mountPage []))))
     = [Complete, Complete]
   \<and> intervals (pageRun [Typing ''a red fox'', Submit (Ok (Some ''abc123'')) 1000,
       Typing ''a blue fox'', Submit (Ok (Some ''def456'')) 2000, Fire 1, Fire 1,
       Respond 0 (Ok \<lparr>data_status = ''PENDING'', data_url = None, data_message = None\<rparr>) 3000,
       Respond 1 (success ''https://x/img2.jpg'') 3100,
       Respond 0 (success ''https://x/img1.jpg'') 3200] (mountPage []))
     = [(2, Interval 1000 [''abc123''])]
   \<and> rounds (pageRun [Typing ''a red fox'', Submit (Ok (Some ''abc123'')) 1000,
       Typing ''a blue fox'', Submit (Ok (Some ''def456'')) 2000, Fire 1, Fire 1,
       Respond 0 (Ok \<lparr>data_status = ''PENDING'', data_url = None, data_message = None\<rparr>) 3000,
       Respond 1 (success ''https://x/img2.jpg'') 3100,
       Respond 0 (success ''https://x/img1.jpg'') 3200] (mountPage []))
     = [\<lparr>awaited = ''def456'', remaining = [], completed = [''abc123'']\<rparr>]
   \<and> map status (images (home (pageRun [Typing ''a red fox'', Submit (Ok (Some ''undefined'')) 1000, Fire 0]
       (mountPage [])))) = [Loading]
   \<and> intervals (pageRun [Typing ''a red fox'', Submit (Ok (Some ''undefined'')) 1000, Fire 0]
       (mountPage [])) = []
   \<and> queries (pageRun [Typing ''a red fox'', Submit (Ok (Some ''undefined'')) 1000, Fire 0]
       (mountPage [])) = []
   \<and> map status (images (home (pageRun [Typing ''a red fox'', Submit (Ok (Some ''abc123'')) 1000,
       Typing ''a blue fox'', Submit (Ok (Some ''def456'')) 2000, Fire 1,
       Respond 0 (success ''https://x/img1.jpg'') 3000,
       Typing ''a red fox'', Submit (Ok (Some ''abc123'')) 4000,
       Respond 0 (success ''https://x/img2.jpg'') 5000] (mountPage []))))
     = [Loading, Complete, Complete]
   \<and> intervals (pageRun [Typing ''a red fox'', Submit (Ok (Some ''abc123'')) 1000,
       Typing ''a blue fox'', Submit (Ok (Some ''def456'')) 2000, Fire 1,
       Respond 0 (success ''https://x/img1.jpg'') 3000,
       Typing ''a red fox'', Submit (Ok (Some ''abc123'')) 4000,
       Respond 0 (success ''https://x/img2.jpg'') 5000] (mountPage [])) = []
   \<and> images (home (pageRun [Typing ''a red fox'', Submit (Ok (Some ''abc123'')) 1000, Fire 0,
       Respond 0 (success ''https://x/img1.jpg'') 2000,
       Typing ''a red fox'', Submit (Ok (Some ''abc123'')) 3000, ClickDelete ''abc123''] (mountPage [])))
     = []
   \<and> intervals (pageRun [Typing ''a red fox'', Submit (Ok (Some ''abc123'')) 1000, Fire 0,
       Respond 0 (success ''https://x/img1.jpg'') 2000,
       Typing ''a red fox'', Submit (Ok (Some ''abc123'')) 3000, ClickDelete ''abc123''] (mountPage []))
     = [(1, Interval 1000 [''abc123''])]
   \<and> rounds (pageRun [Typing ''a red fox'', Submit (Ok (Some ''abc123'')) 1000, Fire 0,
       Respond 0 (success ''https://x/img1.jpg'') 2000,
       Typing ''a red fox'', Submit (Ok (Some ''abc123'')) 3000, ClickDelete ''abc123''] (mountPage [])) = []"
  by (simp add: page_defs)

section \<open>Submission\<close>

lemma trim_empty_iff: "trim s = [] \<longleftrightarrow> (\<forall>c \<in> set s. isWhiteSpace c)"
proof -
  have "trim s = [] \<longleftrightarrow> (\<forall>c \<in> set (dropWhile isWhiteSpace s). isWhiteSpace c)"
    by (simp add: trim_def dropWhile_eq_Nil_conv)
  also have "\<dots> \<longleftrightarrow> dropWhile isWhiteSpace s = []"
    by (metis hd_dropWhile list.set_sel(1) empty_iff list.set(1))
  also have "\<dots> \<longleftrightarrow> (\<forall>c \<in> set s. isWhiteSpace c)"
    by (simp add: dropWhile_eq_Nil_conv)
  finally show ?thesis .
qed

text \<open>
  The request fails: \<^verbatim>\<open>fetch\<close> throws, the response is not ok, reading the body throws,
  or \<^verbatim>\<open>data["job-id"]\<close> is absent or the empty string.
\<close>

definition submissionFails :: "string option fetched \<Rightarrow> bool" where
  "submissionFails response = (case response of Ok (Some jobId) \<Rightarrow> jobId = [] | _ \<Rightarrow> True)"

text \<open>
  C8. With a prompt that is empty or white space only, \<^verbatim>\<open>generateImage\<close> posts nothing
  to the gateway, shows nothing and leaves the state as it is. With any other prompt and
  a failing request, it shows the failure message with \<^verbatim>\<open>alert\<close> and leaves the state,
  store and working set included, as it is.
\<close>

theorem rejected_or_failed_submission_leaves_state:
  "((\<forall>c \<in> set (prompt_input s). isWhiteSpace c) \<longrightarrow>
      generateImage response now s = \<lparr>new_state = s, gateway_calls = [], alerts = []\<rparr>)
   \<and> (\<not> (\<forall>c \<in> set (prompt_input s). isWhiteSpace c) \<and> submissionFails response \<longrightarrow>
      new_state (generateImage response now s) = s
      \<and> alerts (generateImage response now s) = [''Failed to generate image. Please try again.''])"
proof (intro conjI impI)
  assume "\<forall>c \<in> set (prompt_input s). isWhiteSpace c"
  then have "trim (prompt_input s) = []"
    by (simp add: trim_empty_iff)
  then show "generateImage response now s = \<lparr>new_state = s, gateway_calls = [], alerts = []\<rparr>"
    by (simp add: generateImage_def)
next
  assume a: "\<not> (\<forall>c \<in> set (prompt_input s). isWhiteSpace c) \<and> submissionFails response"
  then have t: "trim (prompt_input s) \<noteq> []"
    by (simp add: trim_empty_iff)
  from a have f: "submissionFails response" by simp
  from t f show "new_state (generateImage response now s) = s"
    by (cases response) (auto simp: generateImage_def submissionFails_def Let_def split: option.splits)
  from t f show "alerts (generateImage response now s) = [''Failed to generate image. Please try again.'']"
    by (cases response) (auto simp: generateImage_def submissionFails_def Let_def split: option.splits)
qed

theorem rejected_or_failed_submission_leaves_state_witness:
  "generateImage (Ok (Some ''abc123'')) 1000 \<lparr>prompt_input = ''  '', images = [], pendingJobs = []\<rparr>
     = \<lparr>new_state = \<lparr>prompt_input = ''  '', images = [], pendingJobs = []\<rparr>,
        gateway_calls = [], alerts = []\<rparr>
   \<and> submissionFails (Ok None)
   \<and> generateImage (Ok None) 1000 \<lparr>prompt_input = ''a red fox'', images = [], pendingJobs = []\<rparr>
     = \<lparr>new_state = \<lparr>prompt_input = ''a red fox'', images = [], pendingJobs = []\<rparr>,
        gateway_calls = [''a red fox''],
        alerts = [''Failed to generate image. Please try again.'']\<rparr>"
  using rejected_or_failed_submission_leaves_state
      [of "\<lparr>prompt_input = ''  '', images = [], pendingJobs = []\<rparr>" "Ok (Some ''abc123'')" 1000]
    rejected_or_failed_submission_leaves_state
      [of "\<lparr>prompt_input = ''a red fox'', images = [], pendingJobs = []\<rparr>" "Ok None" 1000]
  by (simp add: isWhiteSpace_def submissionFails_def generateImage_def trim_def Let_def)

section \<open>The file name of a download\<close>

text \<open>
  The derivation in the words of the specification: non-alphanumeric characters
  stripped, truncated to 30 characters, lower-cased, with a fixed extension.
\<close>

definition downloadFilenameSpec :: "string \<Rightarrow> string" where
  "downloadFilenameSpec p = toLowerCase (take 30 (filter isAlnum p)) @ ''.jpg''"

lemma lower_alnum:
  assumes "isAlnum c"
  shows "(48 \<le> (of_char (toLowerCaseChar c) :: nat) \<and> (of_char (toLowerCaseChar c) :: nat) \<le> 57)
       \<or> (97 \<le> (of_char (toLowerCaseChar c) :: nat) \<and> (of_char (toLowerCaseChar c) :: nat) \<le> 122)"
  using assms by (auto simp: isAlnum_def toLowerCaseChar_def Let_def)

lemma lower_underscore: "toLowerCaseChar CHR ''_'' = CHR ''_''"
  by (simp add: toLowerCaseChar_def)

text \<open>
  C7, as the code has it. The name is made of the first 30 code units of the prompt, each
  ASCII letter lower-cased, each digit kept and every other code unit replaced by an
  underscore (none is removed), followed by \<^verbatim>\<open>.jpg\<close>: it is 4 longer than the prompt cut
  at 30, and before the extension it holds lower-case ASCII letters, digits and
  underscores only.
\<close>

theorem download_filename_replaces_then_lowers:
  "downloadFilename p =
     map (\<lambda>c. if isAlnum c then toLowerCaseChar c else CHR ''_'') (take 30 p) @ ''.jpg''
   \<and> length (downloadFilename p) = min 30 (length p) + 4
   \<and> (\<forall>c \<in> set (take (min 30 (length p)) (downloadFilename p)).
        c = CHR ''_'' \<or> (48 \<le> (of_char c :: nat) \<and> (of_char c :: nat) \<le> 57)
        \<or> (97 \<le> (of_char c :: nat) \<and> (of_char c :: nat) \<le> 122))"
proof -
  have eq: "downloadFilename p =
     map (\<lambda>c. if isAlnum c then toLowerCaseChar c else CHR ''_'') (take 30 p) @ ''.jpg''"
    by (simp add: downloadFilename_def toLowerCase_def replaceNonAlnum_def slice0_def
        lower_underscore if_distrib [of toLowerCaseChar] cong: if_cong)
  then have len: "length (downloadFilename p) = min 30 (length p) + 4"
    by (simp add: min.commute)
  have "take (min 30 (length p)) (downloadFilename p) =
      map (\<lambda>c. if isAlnum c then toLowerCaseChar c else CHR ''_'') (take 30 p)"
    unfolding eq by (simp add: min.commute)
  then have "\<forall>c \<in> set (take (min 30 (length p)) (downloadFilename p)).
        c = CHR ''_'' \<or> (48 \<le> (of_char c :: nat) \<and> (of_char c :: nat) \<le> 57)
        \<or> (97 \<le> (of_char c :: nat) \<and> (of_char c :: nat) \<le> 122)"
    using lower_alnum by auto
  with eq len show ?thesis by blast
qed

theorem download_filename_replaces_then_lowers_witness:
  "downloadFilename ''A Red Fox, 3 Times!'' = ''a_red_fox__3_times_.jpg''
   \<and> length (downloadFilename ''A Red Fox, 3 Times!'') = 23"
  using download_filename_replaces_then_lowers [of "''A Red Fox, 3 Times!''"]
  by (simp add: isAlnum_def toLowerCaseChar_def char_of_def Let_def bit_Suc_0_iff)

text \<open>
  C7 as stated fails: the blanks of a prompt are replaced, not stripped.
\<close>

theorem download_filename_keeps_length:
  "downloadFilename ''a red fox'' = ''a_red_fox.jpg''
   \<and> downloadFilenameSpec ''a red fox'' = ''aredfox.jpg''"
  by (simp add: downloadFilename_def downloadFilenameSpec_def toLowerCase_def toLowerCaseChar_def
      replaceNonAlnum_def slice0_def isAlnum_def Let_def)

section \<open>Persistence: JSON text in local storage\<close>

text \<open>
  \<^verbatim>\<open>JSON.stringify\<close> and \<^verbatim>\<open>JSON.parse\<close> are the platform's; they are modelled here after
  ECMA-262 for the texts a store gives rise to. The values \<^verbatim>\<open>JSON.parse\<close> returns: numbers
  are the integers, and the members of an object are in the order of the text.
\<close>

datatype json =
    JNull
  | JBool bool
  | JNumber int
  | JString string
  | JArray "json list"
  | JObject "(string \<times> json) list"

subsection \<open>\<^verbatim>\<open>JSON.stringify\<close>\<close>

definition hexDigit :: "nat \<Rightarrow> char" where
  "hexDigit n = (if n < 10 then char_of (48 + n) else char_of (87 + n))"

text \<open>\<^verbatim>\<open>QuoteJSONString\<close>, one code unit: 0x22 is the double quote, 0x5C the backslash.\<close>

definition quoteChar :: "char \<Rightarrow> string" where
  "quoteChar c =
     (if c = CHR 0x22 then [CHR 0x5C, CHR 0x22]
      else if c = CHR 0x5C then [CHR 0x5C, CHR 0x5C]
      else if c = CHR 0x08 then [CHR 0x5C, CHR ''b'']
      else if c = CHR 0x09 then [CHR 0x5C, CHR ''t'']
      else if c = CHR 0x0A then [CHR 0x5C, CHR ''n'']
      else if c = CHR 0x0C then [CHR 0x5C, CHR ''f'']
      else if c = CHR 0x0D then [CHR 0x5C, CHR ''r'']
      else if (of_char c :: nat) < 32 then
        [CHR 0x5C, CHR ''u'', CHR ''0'', CHR ''0'',
         hexDigit (of_char c div 16), hexDigit (of_char c mod 16)]
      else [c])"

definition quoteJSONString :: "string \<Rightarrow> string" where
  "quoteJSONString s = CHR 0x22 # concat (map quoteChar s) @ [CHR 0x22]"

fun digitsOfNat :: "nat \<Rightarrow> string" where
  "digitsOfNat n =
     (if n < 10 then [char_of (48 + n)]
      else digitsOfNat (n div 10) @ [char_of (48 + n mod 10)])"

definition showInt :: "int \<Rightarrow> string" where
  "showInt i = (if i < 0 then CHR ''-'' # digitsOfNat (nat (- i)) else digitsOfNat (nat i))"

fun stringifyValue :: "json \<Rightarrow> string"
  and stringifyElements :: "json list \<Rightarrow> string"
  and stringifyMembers :: "(string \<times> json) list \<Rightarrow> string" where
  "stringifyValue JNull = ''null''"
| "stringifyValue (JBool b) = (if b then ''true'' else ''false'')"
| "stringifyValue (JNumber i) = showInt i"
| "stringifyValue (JString s) = quoteJSONString s"
| "stringifyValue (JArray vs) = ''['' @ stringifyElements vs @ '']''"
| "stringifyValue (JObject ms) = ''{'' @ stringifyMembers ms @ ''}''"
| "stringifyElements [] = []"
| "stringifyElements [v] = stringifyValue v"
| "stringifyElements (v # w # vs) = stringifyValue v @ '','' @ stringifyElements (w # vs)"
| "stringifyMembers [] = []"
| "stringifyMembers [m] = quoteJSONString (fst m) @ '':'' @ stringifyValue (snd m)"
| "stringifyMembers (m # m' # ms) =
     quoteJSONString (fst m) @ '':'' @ stringifyValue (snd m) @ '','' @ stringifyMembers (m' # ms)"

subsection \<open>\<^verbatim>\<open>JSON.parse\<close>\<close>

text \<open>
  \<open>SyntaxError\<close> is the exception of \<^verbatim>\<open>JSON.parse\<close>. \<open>Unsupported\<close> marks a text outside
  this model: a number with a fraction or an exponent, or an escape \<^verbatim>\<open>\u\<close> beyond code
  unit 255. \<open>OutOfFuel\<close> is the model's own: the recursion bound was reached.
\<close>

datatype parse_error = SyntaxError | Unsupported | OutOfFuel

definition isJsonWhiteSpace :: "char \<Rightarrow> bool" where
  "isJsonWhiteSpace c = (c = CHR 0x20 \<or> c = CHR 0x09 \<or> c = CHR 0x0A \<or> c = CHR 0x0D)"

definition skipWhiteSpace :: "string \<Rightarrow> string" where
  "skipWhiteSpace s = dropWhile isJsonWhiteSpace s"

definition hexValue :: "char \<Rightarrow> nat option" where
  "hexValue c =
     (let n = (of_char c :: nat) in
      if 48 \<le> n \<and> n \<le> 57 then Some (n - 48)
      else if 97 \<le> n \<and> n \<le> 102 then Some (n - 87)
      else if 65 \<le> n \<and> n \<le> 70 then Some (n - 55)
      else None)"

text \<open>The character a one-letter escape stands for.\<close>

definition unescape :: "char \<Rightarrow> char option" where
  "unescape e =
     (if e = CHR 0x22 then Some (CHR 0x22)
      else if e = CHR 0x5C then Some (CHR 0x5C)
      else if e = CHR ''/'' then Some (CHR ''/'')
      else if e = CHR ''b'' then Some (CHR 0x08)
      else if e = CHR ''f'' then Some (CHR 0x0C)
      else if e = CHR ''n'' then Some (CHR 0x0A)
      else if e = CHR ''r'' then Some (CHR 0x0D)
      else if e = CHR ''t'' then Some (CHR 0x09)
      else None)"

definition consChar :: "char \<Rightarrow> parse_error + (string \<times> string) \<Rightarrow> parse_error + (string \<times> string)" where
  "consChar c r = (case r of Inl e \<Rightarrow> Inl e | Inr (s, rest) \<Rightarrow> Inr (c # s, rest))"

text \<open>The characters of a string after its opening quote, up to the closing one.\<close>

fun parseStringBody :: "string \<Rightarrow> parse_error + (string \<times> string)" where
  "parseStringBody [] = Inl SyntaxError"
| "parseStringBody (c # cs) =
     (if c = CHR 0x22 then Inr ([], cs)
      else if c = CHR 0x5C then
        (case cs of
           [] \<Rightarrow> Inl SyntaxError
         | e # rest \<Rightarrow>
             if e = CHR ''u'' then
               (case rest of
                  h1 # h2 # h3 # h4 # rest' \<Rightarrow>
                    (case (hexValue h1, hexValue h2, hexValue h3, hexValue h4) of
                       (Some a, Some b, Some c, Some d) \<Rightarrow>
                         if ((a * 16 + b) * 16 + c) * 16 + d < 256
                         then consChar (char_of (((a * 16 + b) * 16 + c) * 16 + d)) (parseStringBody rest')
                         else Inl Unsupported
                     | _ \<Rightarrow> Inl SyntaxError)
                | _ \<Rightarrow> Inl SyntaxError)
             else
               (case unescape e of
                  None \<Rightarrow> Inl SyntaxError
                | Some ch \<Rightarrow> consChar ch (parseStringBody rest)))
      else if (of_char c :: nat) < 32 then Inl SyntaxError
      else consChar c (parseStringBody cs))"

definition isDigit :: "char \<Rightarrow> bool" where
  "isDigit c = (48 \<le> (of_char c :: nat) \<and> (of_char c :: nat) \<le> 57)"

definition natOfDigits :: "string \<Rightarrow> nat" where
  "natOfDigits ds = foldl (\<lambda>acc c. acc * 10 + (of_char c - 48)) 0 ds"

text \<open>
  A number: an optional minus, then a single 0 or a digit from 1 to 9 and the digits that
  follow.
\<close>

definition parseDigits :: "string \<Rightarrow> parse_error + (nat \<times> string)" where
  "parseDigits s =
     (case s of
        [] \<Rightarrow> Inl SyntaxError
      | d # ds \<Rightarrow>
          if \<not> isDigit d then Inl SyntaxError
          else
            let (digits, rest) =
              (if d = CHR ''0'' then ([d], ds) else (takeWhile isDigit s, dropWhile isDigit s)) in
            (case rest of
               [] \<Rightarrow> Inr (natOfDigits digits, rest)
             | r # rs \<Rightarrow>
                 if r = CHR ''.'' \<or> r = CHR ''e'' \<or> r = CHR ''E'' then Inl Unsupported
                 else Inr (natOfDigits digits, rest)))"

definition parseNumber :: "string \<Rightarrow> parse_error + (int \<times> string)" where
  "parseNumber s =
     (case s of
        [] \<Rightarrow> Inl SyntaxError
      | c # cs \<Rightarrow>
          if c = CHR ''-'' then
            (case parseDigits cs of Inl e \<Rightarrow> Inl e | Inr (n, rest) \<Rightarrow> Inr (- int n, rest))
          else
            (case parseDigits s of Inl e \<Rightarrow> Inl e | Inr (n, rest) \<Rightarrow> Inr (int n, rest)))"

text \<open>
  A value, the elements of an array after its bracket, and the members of an object
  after its brace. The first argument bounds the depth of the recursion.
\<close>

fun parseValue :: "nat \<Rightarrow> string \<Rightarrow> parse_error + (json \<times> string)"
  and parseElements :: "nat \<Rightarrow> string \<Rightarrow> parse_error + (json list \<times> string)"
  and parseMembers :: "nat \<Rightarrow> string \<Rightarrow> parse_error + ((string \<times> json) list \<times> string)" where
  "parseValue 0 s = Inl OutOfFuel"
| "parseValue (Suc n) s =
     (case skipWhiteSpace s of
        [] \<Rightarrow> Inl SyntaxError
      | c # cs \<Rightarrow>
          if c = CHR 0x22 then
            (case parseStringBody cs of
               Inl e \<Rightarrow> Inl e
             | Inr (str, rest) \<Rightarrow> Inr (JString str, rest))
          else if c = CHR ''['' then
            (case skipWhiteSpace cs of
               [] \<Rightarrow> Inl SyntaxError
             | d # ds \<Rightarrow>
                 if d = CHR '']'' then Inr (JArray [], ds)
                 else
                   (case parseElements n cs of
                      Inl e \<Rightarrow> Inl e
                    | Inr (vs, rest) \<Rightarrow> Inr (JArray vs, rest)))
          else if c = CHR ''{'' then
            (case skipWhiteSpace cs of
               [] \<Rightarrow> Inl SyntaxError
             | d # ds \<Rightarrow>
                 if d = CHR ''}'' then Inr (JObject [], ds)
                 else
                   (case parseMembers n cs of
                      Inl e \<Rightarrow> Inl e
                    | Inr (ms, rest) \<Rightarrow> Inr (JObject ms, rest)))
          else if take 4 (c # cs) = ''true'' then Inr (JBool True, drop 4 (c # cs))
          else if take 5 (c # cs) = ''false'' then Inr (JBool False, drop 5 (c # cs))
          else if take 4 (c # cs) = ''null'' then Inr (JNull, drop 4 (c # cs))
          else
            (case parseNumber (c # cs) of
               Inl e \<Rightarrow> Inl e
             | Inr (i, rest) \<Rightarrow> Inr (JNumber i, rest)))"
| "parseElements 0 s = Inl OutOfFuel"
| "parseElements (Suc n) s =
     (case parseValue n s of
        Inl e \<Rightarrow> Inl e
      | Inr (v, rest) \<Rightarrow>
          (case skipWhiteSpace rest of
             [] \<Rightarrow> Inl SyntaxError
           | d # ds \<Rightarrow>
               if d = CHR '']'' then Inr ([v], ds)
               else if d = CHR '','' then
                 (case parseElements n ds of
                    Inl e \<Rightarrow> Inl e
                  | Inr (vs, rest') \<Rightarrow> Inr (v # vs, rest'))
               else Inl SyntaxError))"
| "parseMembers 0 s = Inl OutOfFuel"
| "parseMembers (Suc n) s =
     (case skipWhiteSpace s of
        [] \<Rightarrow> Inl SyntaxError
      | q # cs \<Rightarrow>
          if q \<noteq> CHR 0x22 then Inl SyntaxError
          else
            (case parseStringBody cs of
               Inl e \<Rightarrow> Inl e
             | Inr (key, rest) \<Rightarrow>
                 (case skipWhiteSpace rest of
                    [] \<Rightarrow> Inl SyntaxError
                  | colon # rest1 \<Rightarrow>
                      if colon \<noteq> CHR '':'' then Inl SyntaxError
                      else
                        (case parseValue n rest1 of
                           Inl e \<Rightarrow> Inl e
                         | Inr (v, rest2) \<Rightarrow>
                             (case skipWhiteSpace rest2 of
                                [] \<Rightarrow> Inl SyntaxError
                              | d # ds \<Rightarrow>
                                  if d = CHR ''}'' then Inr ([(key, v)], ds)
                                  else if d = CHR '','' then
                                    (case parseMembers n ds of
                                       Inl e \<Rightarrow> Inl e
                                     | Inr (ms, rest3) \<Rightarrow> Inr ((key, v) # ms, rest3))
                                  else Inl SyntaxError)))))"

text \<open>
  \<^verbatim>\<open>JSON.parse\<close>: one value, then nothing but white space. Of two nested calls of the
  recursion at least one reads a character of the text first, so twice the length of the
  text bounds its depth: \<open>OutOfFuel\<close> is never the result (\<open>JSON_parse_total\<close> below).
\<close>

definition JSON_parse :: "string \<Rightarrow> parse_error + json" where
  "JSON_parse text =
     (case parseValue (2 * length text + 2) text of
        Inl e \<Rightarrow> Inl e
      | Inr (v, rest) \<Rightarrow> if skipWhiteSpace rest = [] then Inr v else Inl SyntaxError)"

text \<open>\<^verbatim>\<open>JSON.stringify\<close> of a value, with no replacer and no indentation.\<close>

definition JSON_stringify :: "json \<Rightarrow> string" where
  "JSON_stringify v = stringifyValue v"

subsection \<open>The store as a value\<close>

text \<open>
  The array \<^verbatim>\<open>images\<close> as the value \<^verbatim>\<open>JSON.stringify\<close> walks: an object per record, a
  property per field, none for a field that is \<^term>\<open>None\<close> (an \<^verbatim>\<open>undefined\<close> property is
  left out of the text). The order of the properties of an object is not modelled; here
  it is the order of the interface.
\<close>

definition statusString :: "status \<Rightarrow> string" where
  "statusString st = (case st of Loading \<Rightarrow> ''loading'' | Complete \<Rightarrow> ''complete'' | Error \<Rightarrow> ''error'')"

definition optionalMember :: "string \<Rightarrow> ('a \<Rightarrow> json) \<Rightarrow> 'a option \<Rightarrow> (string \<times> json) list" where
  "optionalMember key f x = (case x of None \<Rightarrow> [] | Some y \<Rightarrow> [(key, f y)])"

definition imageValue :: "GeneratedImage \<Rightarrow> json" where
  "imageValue img =
     JObject
       ([(''id'', JString (id' img)),
         (''prompt'', JString (prompt img)),
         (''status'', JString (statusString (status img))),
         (''startTime'', JNumber (startTime img))]
        @ optionalMember ''url'' JString (url img)
        @ optionalMember ''error'' JString (error img)
        @ optionalMember ''completionTime'' JNumber (completionTime img))"

definition imagesValue :: "GeneratedImage list \<Rightarrow> json" where
  "imagesValue imgs = JArray (map imageValue imgs)"

text \<open>
  The value \<^verbatim>\<open>JSON.parse\<close> returned, read as \<^verbatim>\<open>GeneratedImage[]\<close>: the state is typed so
  without a check. Of a name that occurs twice in an object the last value counts.
  \<^term>\<open>None\<close> when the value has not that shape.
\<close>

definition property :: "string \<Rightarrow> (string \<times> json) list \<Rightarrow> json option" where
  "property key ms = map_of (rev ms) key"

definition stringProperty :: "string \<Rightarrow> (string \<times> json) list \<Rightarrow> string option" where
  "stringProperty key ms = (case property key ms of Some (JString s) \<Rightarrow> Some s | _ \<Rightarrow> None)"

definition numberProperty :: "string \<Rightarrow> (string \<times> json) list \<Rightarrow> int option" where
  "numberProperty key ms = (case property key ms of Some (JNumber i) \<Rightarrow> Some i | _ \<Rightarrow> None)"

definition optionalString :: "string \<Rightarrow> (string \<times> json) list \<Rightarrow> string option option" where
  "optionalString key ms =
     (case property key ms of None \<Rightarrow> Some None | Some (JString s) \<Rightarrow> Some (Some s) | _ \<Rightarrow> None)"

definition optionalNumber :: "string \<Rightarrow> (string \<times> json) list \<Rightarrow> int option option" where
  "optionalNumber key ms =
     (case property key ms of None \<Rightarrow> Some None | Some (JNumber i) \<Rightarrow> Some (Some i) | _ \<Rightarrow> None)"

definition statusOfString :: "string \<Rightarrow> status option" where
  "statusOfString s =
     (if s = ''loading'' then Some Loading
      else if s = ''complete'' then Some Complete
      else if s = ''error'' then Some Error
      else None)"

definition asImage :: "json \<Rightarrow> GeneratedImage option" where
  "asImage v =
     (case v of
        JObject ms \<Rightarrow>
          Option.bind (stringProperty ''id'' ms) (\<lambda>i.
          Option.bind (stringProperty ''prompt'' ms) (\<lambda>p.
          Option.bind (Option.bind (stringProperty ''status'' ms) statusOfString) (\<lambda>st.
          Option.bind (optionalString ''url'' ms) (\<lambda>u.
          Option.bind (optionalString ''error'' ms) (\<lambda>e.
          Option.bind (numberProperty ''startTime'' ms) (\<lambda>t.
          Option.bind (optionalNumber ''completionTime'' ms) (\<lambda>c.
            Some \<lparr>id' = i, prompt = p, status = st, url = u, error = e, startTime = t,
                  completionTime = c\<rparr>)))))))
      | _ \<Rightarrow> None)"

definition asImages :: "json \<Rightarrow> GeneratedImage list option" where
  "asImages v = (case v of JArray vs \<Rightarrow> those (map asImage vs) | _ \<Rightarrow> None)"

subsection \<open>Local storage\<close>

text \<open>The entries of \<^verbatim>\<open>localStorage\<close>, with \<^verbatim>\<open>getItem\<close> and \<^verbatim>\<open>setItem\<close>.\<close>

type_synonym localStorage = "(string \<times> string) list"

definition getItem :: "string \<Rightarrow> localStorage \<Rightarrow> string option" where
  "getItem key st = map_of st key"

definition setItem :: "string \<Rightarrow> string \<Rightarrow> localStorage \<Rightarrow> localStorage" where
  "setItem key v st = (key, v) # filter (\<lambda>entry. fst entry \<noteq> key) st"

text \<open>The effect on \<^verbatim>\<open>[images]\<close>.\<close>

definition persistImages :: "GeneratedImage list \<Rightarrow> localStorage \<Rightarrow> localStorage" where
  "persistImages imgs st = setItem ''generated-images'' (JSON_stringify (imagesValue imgs)) st"

text \<open>
  The initializer of the state \<^verbatim>\<open>images\<close>; \<open>window\<close> is
  \<^verbatim>\<open>typeof window !== 'undefined'\<close>. An exception of \<^verbatim>\<open>JSON.parse\<close> leaves it as it is
  thrown.
\<close>

definition loadImages :: "bool \<Rightarrow> localStorage \<Rightarrow> parse_error + json" where
  "loadImages window st =
     (if window then
        (case getItem ''generated-images'' st of
           None \<Rightarrow> Inr (JArray [])
         | Some saved \<Rightarrow> if saved \<noteq> [] then JSON_parse saved else Inr (JArray []))
      else Inr (JArray []))"

subsection \<open>Reading back what was written\<close>

lemma hexValue_hexDigit: "n < 16 \<Longrightarrow> hexValue (hexDigit n) = Some n"
  by (simp add: hexValue_def hexDigit_def Let_def)

lemma consChar_Inr: "consChar c (Inr (s, rest)) = Inr (c # s, rest)"
  by (simp add: consChar_def)

lemma psb_quote: "parseStringBody (CHR 0x22 # cs) = Inr ([], cs)"
  by simp

lemma psb_plain:
  "c \<noteq> CHR 0x22 \<Longrightarrow> c \<noteq> CHR 0x5C \<Longrightarrow> 32 \<le> (of_char c :: nat) \<Longrightarrow>
     parseStringBody (c # cs) = consChar c (parseStringBody cs)"
  by simp

lemma psb_escape:
  "unescape e = Some ch \<Longrightarrow> e \<noteq> CHR ''u'' \<Longrightarrow>
     parseStringBody (CHR 0x5C # e # rest) = consChar ch (parseStringBody rest)"
  by simp

lemma psb_unicode:
  "hexValue h1 = Some a \<Longrightarrow> hexValue h2 = Some b \<Longrightarrow> hexValue h3 = Some c \<Longrightarrow>
   hexValue h4 = Some d \<Longrightarrow> ((a * 16 + b) * 16 + c) * 16 + d < 256 \<Longrightarrow>
     parseStringBody (CHR 0x5C # CHR ''u'' # h1 # h2 # h3 # h4 # rest)
     = consChar (char_of (((a * 16 + b) * 16 + c) * 16 + d)) (parseStringBody rest)"
  by simp

declare parseStringBody.simps [simp del]

lemma parse_control:
  assumes "(of_char c :: nat) < 32"
  shows "parseStringBody (CHR 0x5C # CHR ''u'' # CHR ''0'' # CHR ''0'' #
      hexDigit (of_char c div 16) # hexDigit (of_char c mod 16) # rest)
    = consChar c (parseStringBody rest)"
proof -
  have d: "(of_char c :: nat) div 16 < 16" and m: "(of_char c :: nat) mod 16 < 16"
    using assms by simp_all
  have z: "hexValue CHR ''0'' = Some 0"
    by (simp add: hexValue_def)
  have v: "((0 * 16 + 0) * 16 + of_char c div 16) * 16 + of_char c mod 16 = (of_char c :: nat)"
    by simp
  have "((0 * 16 + 0) * 16 + of_char c div 16) * 16 + of_char c mod 16 < (256 :: nat)"
    unfolding v using assms by simp
  from psb_unicode [OF z z hexValue_hexDigit [OF d] hexValue_hexDigit [OF m] this]
  show ?thesis
    unfolding v by simp
qed

lemma quoteChar_cases:
  obtains
    (special) e where "quoteChar c = [CHR 0x5C, e]" and "unescape e = Some c" and "e \<noteq> CHR ''u''"
  | (control) "quoteChar c = [CHR 0x5C, CHR ''u'', CHR ''0'', CHR ''0'',
         hexDigit (of_char c div 16), hexDigit (of_char c mod 16)]" and "(of_char c :: nat) < 32"
  | (plain) "quoteChar c = [c]" and "c \<noteq> CHR 0x22" and "c \<noteq> CHR 0x5C" and "32 \<le> (of_char c :: nat)"
proof -
  consider "c = CHR 0x22" | "c = CHR 0x5C" | "c = CHR 0x08" | "c = CHR 0x09" | "c = CHR 0x0A"
    | "c = CHR 0x0C" | "c = CHR 0x0D"
    | "c \<notin> {CHR 0x22, CHR 0x5C, CHR 0x08, CHR 0x09, CHR 0x0A, CHR 0x0C, CHR 0x0D}"
    by blast
  then show thesis
  proof cases
    case 1
    then show ?thesis by (intro special [of "CHR 0x22"]) (simp_all add: quoteChar_def unescape_def)
  next
    case 2
    then show ?thesis by (intro special [of "CHR 0x5C"]) (simp_all add: quoteChar_def unescape_def)
  next
    case 3
    then show ?thesis by (intro special [of "CHR ''b''"]) (simp_all add: quoteChar_def unescape_def)
  next
    case 4
    then show ?thesis by (intro special [of "CHR ''t''"]) (simp_all add: quoteChar_def unescape_def)
  next
    case 5
    then show ?thesis by (intro special [of "CHR ''n''"]) (simp_all add: quoteChar_def unescape_def)
  next
    case 6
    then show ?thesis by (intro special [of "CHR ''f''"]) (simp_all add: quoteChar_def unescape_def)
  next
    case 7
    then show ?thesis by (intro special [of "CHR ''r''"]) (simp_all add: quoteChar_def unescape_def)
  next
    case 8
    show ?thesis
    proof (cases "(of_char c :: nat) < 32")
      case True
      with 8 show ?thesis by (intro control) (simp_all add: quoteChar_def)
    next
      case False
      with 8 show ?thesis by (intro plain) (simp_all add: quoteChar_def)
    qed
  qed
qed

lemma parse_quoteChar: "parseStringBody (quoteChar c @ rest) = consChar c (parseStringBody rest)"
proof (cases c rule: quoteChar_cases)
  case (special e)
  then show ?thesis by (simp add: psb_escape)
next
  case control
  then show ?thesis by (simp add: parse_control)
next
  case plain
  then show ?thesis by (simp add: psb_plain)
qed

lemma parse_quoted:
  "parseStringBody (concat (map quoteChar s) @ CHR 0x22 # rest) = Inr (s, rest)"
  by (induction s) (simp_all add: parse_quoteChar psb_quote consChar_Inr)

declare digitsOfNat.simps [simp del]

text \<open>What may follow a number for the parser to stop there.\<close>

definition endsNumber :: "string \<Rightarrow> bool" where
  "endsNumber rest =
     (case rest of
        [] \<Rightarrow> True
      | r # rs \<Rightarrow> \<not> isDigit r \<and> r \<noteq> CHR ''.'' \<and> r \<noteq> CHR ''e'' \<and> r \<noteq> CHR ''E'')"

lemma digit_char:
  assumes "d < 10"
  shows "isDigit (char_of (48 + d))" and "(of_char (char_of (48 + d)) :: nat) - 48 = d"
    and "char_of (48 + d) = CHR ''0'' \<longleftrightarrow> d = 0" and "char_of (48 + d) \<noteq> CHR ''-''"
proof -
  have v: "(of_char (char_of (48 + d)) :: nat) = 48 + d"
    using assms by (simp add: of_char_of)
  show "isDigit (char_of (48 + d))"
    unfolding isDigit_def v using assms by simp
  show "(of_char (char_of (48 + d)) :: nat) - 48 = d"
    unfolding v by simp
  have "(of_char (char_of (48 + d)) :: nat) = of_char CHR ''0'' \<longleftrightarrow> d = 0"
    unfolding v by simp
  then show "char_of (48 + d) = CHR ''0'' \<longleftrightarrow> d = 0"
    by (metis of_char_eq_iff)
  have "(of_char (char_of (48 + d)) :: nat) \<noteq> of_char CHR ''-''"
    unfolding v by simp
  then show "char_of (48 + d) \<noteq> CHR ''-''"
    by (metis)
qed

lemma digits_nonempty: "digitsOfNat n \<noteq> []"
  by (subst digitsOfNat.simps) simp

lemma digits_all: "c \<in> set (digitsOfNat n) \<Longrightarrow> isDigit c"
proof (induction n arbitrary: c rule: digitsOfNat.induct)
  case (1 n)
  show ?case
  proof (cases "n < 10")
    case True
    with "1.prems" show ?thesis
      by (subst (asm) digitsOfNat.simps) (simp add: digit_char)
  next
    case False
    have "n mod 10 < 10" by simp
    then have "isDigit (char_of (48 + n mod 10))"
      by (rule digit_char)
    with False "1.prems" "1.IH" show ?thesis
      by (subst (asm) digitsOfNat.simps) auto
  qed
qed

lemma natOfDigits_snoc: "natOfDigits (ds @ [c]) = natOfDigits ds * 10 + (of_char c - 48)"
  by (simp add: natOfDigits_def)

lemma digits_value: "natOfDigits (digitsOfNat n) = n"
proof (induction n rule: digitsOfNat.induct)
  case (1 n)
  show ?case
  proof (cases "n < 10")
    case True
    then show ?thesis
      by (subst digitsOfNat.simps) (simp add: natOfDigits_def digit_char)
  next
    case False
    have "n mod 10 < 10" by simp
    then have "(of_char (char_of (48 + n mod 10)) :: nat) - 48 = n mod 10"
      by (rule digit_char)
    with False "1.IH" show ?thesis
      by (subst digitsOfNat.simps) (simp add: natOfDigits_snoc)
  qed
qed

lemma digits_hd: "hd (digitsOfNat n) = CHR ''0'' \<longleftrightarrow> n = 0"
proof (induction n rule: digitsOfNat.induct)
  case (1 n)
  show ?case
  proof (cases "n < 10")
    case True
    then show ?thesis
      by (subst digitsOfNat.simps) (simp add: digit_char)
  next
    case False
    then have "hd (digitsOfNat n) = hd (digitsOfNat (n div 10))"
      by (subst digitsOfNat.simps) (simp add: digits_nonempty)
    with False "1.IH" show ?thesis by simp
  qed
qed

lemma digits_zero: "digitsOfNat 0 = ''0''"
  by (subst digitsOfNat.simps) (simp add: char_of_def bit_Suc_0_iff)

lemma parseDigits_digits:
  assumes "endsNumber rest"
  shows "parseDigits (digitsOfNat n @ rest) = Inr (n, rest)"
proof -
  obtain d ds where ds: "digitsOfNat n = d # ds"
    using digits_nonempty by (cases "digitsOfNat n") auto
  have all: "\<forall>c \<in> set (d # ds). isDigit c"
    using digits_all ds by metis
  then have d: "isDigit d" by simp
  have stop: "takeWhile isDigit rest = []" "dropWhile isDigit rest = rest"
    using assms by (cases rest; simp add: endsNumber_def)+
  have ok: "(case rest of [] \<Rightarrow> Inr (k, rest)
             | r # rs \<Rightarrow> if r = CHR ''.'' \<or> r = CHR ''e'' \<or> r = CHR ''E'' then Inl Unsupported
                 else Inr (k, rest)) = Inr (k, rest)" for k :: nat
    using assms by (cases rest) (simp_all add: endsNumber_def)
  show ?thesis
  proof (cases "d = CHR ''0''")
    case True
    with ds have "n = 0"
      using digits_hd [of n] by simp
    then have z: "digitsOfNat n = ''0''"
      by (simp add: digits_zero)
    have v: "natOfDigits ''0'' = n"
      using \<open>n = 0\<close> by (simp add: natOfDigits_def)
    have "parseDigits (''0'' @ rest) =
        (case rest of [] \<Rightarrow> Inr (natOfDigits ''0'', rest)
             | r # rs \<Rightarrow> if r = CHR ''.'' \<or> r = CHR ''e'' \<or> r = CHR ''E'' then Inl Unsupported
                 else Inr (natOfDigits ''0'', rest))"
      by (simp add: parseDigits_def isDigit_def)
    then show ?thesis
      unfolding z v ok .
  next
    case False
    have t: "takeWhile isDigit ((d # ds) @ rest) = d # ds"
      using all stop by (simp only: takeWhile_append2 [of "d # ds" isDigit rest]) simp
    have dr: "dropWhile isDigit ((d # ds) @ rest) = rest"
      using all stop by (simp only: dropWhile_append2 [of "d # ds" isDigit rest])
    have "parseDigits ((d # ds) @ rest) =
        (case rest of [] \<Rightarrow> Inr (natOfDigits (d # ds), rest)
             | r # rs \<Rightarrow> if r = CHR ''.'' \<or> r = CHR ''e'' \<or> r = CHR ''E'' then Inl Unsupported
                 else Inr (natOfDigits (d # ds), rest))"
      using False d t dr by (simp add: parseDigits_def)
    then show ?thesis
      unfolding ds [symmetric] ok digits_value .
  qed
qed

lemma parseNumber_showInt:
  assumes "endsNumber rest"
  shows "parseNumber (showInt i @ rest) = Inr (i, rest)"
proof (cases "i < 0")
  case True
  then show ?thesis
    by (simp add: showInt_def parseNumber_def parseDigits_digits [OF assms])
next
  case False
  obtain d ds where ds: "digitsOfNat (nat i) = d # ds"
    using digits_nonempty by (cases "digitsOfNat (nat i)") auto
  have "isDigit d"
    using digits_all [of d "nat i"] ds by simp
  then have "d \<noteq> CHR ''-''"
    by (auto simp: isDigit_def)
  then have "parseNumber ((d # ds) @ rest) =
      (case parseDigits ((d # ds) @ rest) of Inl e \<Rightarrow> Inl e | Inr (n, rest) \<Rightarrow> Inr (int n, rest))"
    by (simp add: parseNumber_def)
  then show ?thesis
    using False unfolding ds [symmetric] by (simp add: showInt_def parseDigits_digits [OF assms])
qed

lemma skip_none: "\<not> isJsonWhiteSpace c \<Longrightarrow> skipWhiteSpace (c # cs) = c # cs"
  by (simp add: skipWhiteSpace_def)

lemma quote_not_white: "\<not> isJsonWhiteSpace (CHR 0x22)"
  by (simp add: isJsonWhiteSpace_def)

lemma parse_string_value:
  "parseValue (Suc n) (quoteJSONString s @ rest) = Inr (JString s, rest)"
  by (simp add: quoteJSONString_def skip_none [OF quote_not_white] parse_quoted)

lemma number_start:
  assumes "isDigit c \<or> c = CHR ''-''"
  shows "\<not> isJsonWhiteSpace c" and "c \<noteq> CHR 0x22" and "c \<noteq> CHR ''[''" and "c \<noteq> CHR ''{''"
    and "c \<noteq> CHR ''t''" and "c \<noteq> CHR ''f''" and "c \<noteq> CHR ''n''"
  using assms by (auto simp: isDigit_def isJsonWhiteSpace_def)

lemma parse_number_start:
  assumes "isDigit c \<or> c = CHR ''-''"
  shows "parseValue (Suc n) (c # cs) =
    (case parseNumber (c # cs) of Inl e \<Rightarrow> Inl e | Inr (i, rest) \<Rightarrow> Inr (JNumber i, rest))"
  using number_start [OF assms] by (simp add: skip_none)

lemma showInt_start: "\<exists>c cs. showInt i = c # cs \<and> (isDigit c \<or> c = CHR ''-'')"
proof (cases "i < 0")
  case True
  then show ?thesis by (simp add: showInt_def)
next
  case False
  obtain d ds where ds: "digitsOfNat (nat i) = d # ds"
    using digits_nonempty by (cases "digitsOfNat (nat i)") auto
  then have "isDigit d"
    using digits_all [of d "nat i"] by simp
  with False ds show ?thesis by (simp add: showInt_def)
qed

lemma parse_number_value:
  assumes "endsNumber rest"
  shows "parseValue (Suc n) (showInt i @ rest) = Inr (JNumber i, rest)"
proof -
  obtain c cs where s: "showInt i = c # cs" and c: "isDigit c \<or> c = CHR ''-''"
    using showInt_start by blast
  have "parseValue (Suc n) ((c # cs) @ rest) =
    (case parseNumber ((c # cs) @ rest) of Inl e \<Rightarrow> Inl e | Inr (i, rest) \<Rightarrow> Inr (JNumber i, rest))"
    using parse_number_start [OF c] by simp
  then show ?thesis
    unfolding s [symmetric] by (simp add: parseNumber_showInt [OF assms])
qed

declare parseValue.simps [simp del] parseElements.simps [simp del] parseMembers.simps [simp del]

text \<open>A string or a number.\<close>

definition scalar :: "json \<Rightarrow> bool" where
  "scalar v = (case v of JString s \<Rightarrow> True | JNumber i \<Rightarrow> True | _ \<Rightarrow> False)"

text \<open>The characters that follow a value inside an array or an object.\<close>

definition delimiter :: "char \<Rightarrow> bool" where
  "delimiter d = (d = CHR '','' \<or> d = CHR ''}'' \<or> d = CHR '']'')"

lemma delimiter_facts:
  assumes "delimiter d"
  shows "endsNumber (d # ds)" and "\<not> isJsonWhiteSpace d"
  using assms by (auto simp: delimiter_def endsNumber_def isDigit_def isJsonWhiteSpace_def)

lemma parse_scalar:
  assumes "scalar v" and "delimiter d"
  shows "parseValue (Suc n) (stringifyValue v @ d # ds) = Inr (v, d # ds)"
proof (cases v)
  case (JNumber i)
  then show ?thesis
    using delimiter_facts(1) [OF assms(2)] by (simp add: parse_number_value)
next
  case (JString s)
  then show ?thesis
    by (simp add: parse_string_value)
qed (use assms(1) in \<open>simp_all add: scalar_def\<close>)

lemma parse_member:
  assumes "scalar v" and "delimiter d"
  shows "parseMembers (Suc (Suc n)) (quoteJSONString k @ CHR '':'' # stringifyValue v @ d # ds) =
     (if d = CHR ''}'' then Inr ([(k, v)], ds)
      else if d = CHR '','' then
        (case parseMembers (Suc n) ds of
           Inl e \<Rightarrow> Inl e
         | Inr (ms, rest3) \<Rightarrow> Inr ((k, v) # ms, rest3))
      else Inl SyntaxError)"
proof -
  have 1: "skipWhiteSpace (quoteJSONString k @ CHR '':'' # stringifyValue v @ d # ds)
      = CHR 0x22 # concat (map quoteChar k) @ CHR 0x22 # CHR '':'' # stringifyValue v @ d # ds"
    by (simp add: quoteJSONString_def skip_none [OF quote_not_white])
  have 2: "parseStringBody (concat (map quoteChar k) @ CHR 0x22 # CHR '':'' # stringifyValue v @ d # ds)
      = Inr (k, CHR '':'' # stringifyValue v @ d # ds)"
    by (rule parse_quoted)
  have 3: "skipWhiteSpace (CHR '':'' # stringifyValue v @ d # ds) = CHR '':'' # stringifyValue v @ d # ds"
    by (simp add: skipWhiteSpace_def isJsonWhiteSpace_def)
  have 4: "parseValue (Suc n) (stringifyValue v @ d # ds) = Inr (v, d # ds)"
    using assms by (rule parse_scalar)
  have 5: "skipWhiteSpace (d # ds) = d # ds"
    using delimiter_facts(2) [OF assms(2)] by (rule skip_none)
  show ?thesis
    by (subst parseMembers.simps)
      (simp only: 1 2 3 4 5 list.case sum.case prod.case simp_thms if_True if_False)
qed

lemma members_cons:
  "ms \<noteq> [] \<Longrightarrow> stringifyMembers (m # ms) =
     quoteJSONString (fst m) @ CHR '':'' # stringifyValue (snd m) @ CHR '','' # stringifyMembers ms"
  by (cases ms) simp_all

lemma members_single:
  "stringifyMembers [m] = quoteJSONString (fst m) @ CHR '':'' # stringifyValue (snd m)"
  by simp

lemma members_start: "ms \<noteq> [] \<Longrightarrow> \<exists>t. stringifyMembers ms = CHR 0x22 # t"
  by (cases ms rule: stringifyMembers.cases) (simp_all add: quoteJSONString_def)

lemma parse_members_flat:
  assumes "ms \<noteq> []" and "\<forall>m \<in> set ms. scalar (snd m)" and "length ms < n"
  shows "parseMembers n (stringifyMembers ms @ CHR ''}'' # rest) = Inr (ms, rest)"
  using assms
proof (induction ms arbitrary: n rule: list_nonempty_induct)
  case (single m)
  then obtain n' where n: "n = Suc (Suc n')"
    by (metis One_nat_def length_Cons less_Suc_eq_0_disj list.size(3) not_less_eq Suc_lessE)
  have "scalar (snd m)" using single by simp
  then have "parseMembers (Suc (Suc n'))
      (quoteJSONString (fst m) @ CHR '':'' # stringifyValue (snd m) @ CHR ''}'' # rest)
      = Inr ([(fst m, snd m)], rest)"
    by (subst parse_member) (simp_all add: delimiter_def)
  then show ?case
    unfolding n by (simp only: members_single append_assoc append_Cons prod.collapse)
next
  case (cons m ms)
  from cons.prems(2) obtain n' where n: "n = Suc (Suc n')" and l: "length ms < Suc n'"
    by (cases n; cases "n - 1"; cases ms) auto
  have sc: "scalar (snd m)" and rest_sc: "\<forall>m \<in> set ms. scalar (snd m)"
    using cons.prems(1) by simp_all
  have ih: "parseMembers (Suc n') (stringifyMembers ms @ CHR ''}'' # rest) = Inr (ms, rest)"
    using rest_sc l by (rule cons.IH)
  have "parseMembers (Suc (Suc n'))
      (quoteJSONString (fst m) @ CHR '':'' # stringifyValue (snd m) @ CHR '','' #
        (stringifyMembers ms @ CHR ''}'' # rest))
      = Inr ((fst m, snd m) # ms, rest)"
    using sc by (subst parse_member) (simp_all add: delimiter_def ih)
  then show ?case
    unfolding n by (simp only: members_cons [OF cons.hyps] append_assoc append_Cons prod.collapse)
qed

lemma parse_flat_object:
  assumes "ms \<noteq> []" and "\<forall>m \<in> set ms. scalar (snd m)" and "length ms < n"
  shows "parseValue (Suc n) (CHR ''{'' # stringifyMembers ms @ CHR ''}'' # rest) = Inr (JObject ms, rest)"
proof -
  obtain t where t: "stringifyMembers ms = CHR 0x22 # t"
    using members_start [OF assms(1)] by blast
  have 1: "skipWhiteSpace (CHR ''{'' # stringifyMembers ms @ CHR ''}'' # rest)
      = CHR ''{'' # stringifyMembers ms @ CHR ''}'' # rest"
    by (simp add: skipWhiteSpace_def isJsonWhiteSpace_def)
  have 2: "skipWhiteSpace (stringifyMembers ms @ CHR ''}'' # rest) = CHR 0x22 # t @ CHR ''}'' # rest"
    unfolding t by (simp add: skip_none [OF quote_not_white])
  have 3: "parseMembers n (stringifyMembers ms @ CHR ''}'' # rest) = Inr (ms, rest)"
    using assms by (rule parse_members_flat)
  show ?thesis
    by (subst parseValue.simps) (simp add: 1 2 3)
qed

text \<open>An object of one to seven members, each a string or a number.\<close>

definition flatObject :: "json \<Rightarrow> bool" where
  "flatObject v =
     (case v of
        JObject ms \<Rightarrow> ms \<noteq> [] \<and> (\<forall>m \<in> set ms. scalar (snd m)) \<and> length ms \<le> 7
      | _ \<Rightarrow> False)"

lemma parse_element:
  assumes "flatObject v" and "8 \<le> n"
  shows "parseValue (Suc n) (stringifyValue v @ rest) = Inr (v, rest)"
proof (cases v)
  case (JObject ms)
  with assms have "ms \<noteq> []" and "\<forall>m \<in> set ms. scalar (snd m)" and "length ms < n"
    by (auto simp: flatObject_def)
  then have "parseValue (Suc n) (CHR ''{'' # stringifyMembers ms @ CHR ''}'' # rest) = Inr (JObject ms, rest)"
    by (rule parse_flat_object)
  with JObject show ?thesis by simp
qed (use assms(1) in \<open>simp_all add: flatObject_def\<close>)

lemma element_start: "flatObject v \<Longrightarrow> \<exists>t. stringifyValue v = CHR ''{'' # t"
  by (cases v) (simp_all add: flatObject_def)

lemma elements_cons:
  "vs \<noteq> [] \<Longrightarrow> stringifyElements (v # vs) = stringifyValue v @ CHR '','' # stringifyElements vs"
  by (cases vs) simp_all

lemma parse_elements_flat:
  assumes "vs \<noteq> []" and "\<forall>v \<in> set vs. flatObject v" and "length vs + 9 \<le> n"
  shows "parseElements n (stringifyElements vs @ CHR '']'' # rest) = Inr (vs, rest)"
  using assms
proof (induction vs arbitrary: n rule: list_nonempty_induct)
  case (single v)
  then obtain n' where n: "n = Suc (Suc n')" and n': "8 \<le> n'"
    by (cases n; cases "n - 1") auto
  have 1: "parseValue (Suc n') (stringifyValue v @ CHR '']'' # rest) = Inr (v, CHR '']'' # rest)"
    using single n' by (intro parse_element) simp_all
  have 2: "skipWhiteSpace (CHR '']'' # rest) = CHR '']'' # rest"
    by (simp add: skipWhiteSpace_def isJsonWhiteSpace_def)
  show ?case
    unfolding n by (subst parseElements.simps) (simp add: 1 2)
next
  case (cons v vs)
  from cons.prems(2) obtain n' where n: "n = Suc (Suc n')" and n': "8 \<le> n'"
    and l: "length vs + 9 \<le> Suc n'"
    by (cases n; cases "n - 1") auto
  have 1: "parseValue (Suc n') (stringifyValue v @ CHR '','' # stringifyElements vs @ CHR '']'' # rest)
      = Inr (v, CHR '','' # stringifyElements vs @ CHR '']'' # rest)"
    using cons.prems(1) n' by (intro parse_element) simp_all
  have 2: "skipWhiteSpace (CHR '','' # stringifyElements vs @ CHR '']'' # rest)
      = CHR '','' # stringifyElements vs @ CHR '']'' # rest"
    by (simp add: skipWhiteSpace_def isJsonWhiteSpace_def)
  have 3: "parseElements (Suc n') (stringifyElements vs @ CHR '']'' # rest) = Inr (vs, rest)"
    using cons.prems(1) l by (intro cons.IH) simp_all
  show ?case
    unfolding n by (subst parseElements.simps) (simp add: elements_cons [OF cons.hyps] 1 2 3)
qed

lemma parse_store_array:
  assumes "\<forall>v \<in> set vs. flatObject v" and "vs = [] \<or> length vs + 9 \<le> n"
  shows "parseValue (Suc n) (stringifyValue (JArray vs) @ rest) = Inr (JArray vs, rest)"
proof (cases "vs = []")
  case True
  have "skipWhiteSpace (CHR ''['' # CHR '']'' # rest) = CHR ''['' # CHR '']'' # rest"
    and "skipWhiteSpace (CHR '']'' # rest) = CHR '']'' # rest"
    by (simp_all add: skipWhiteSpace_def isJsonWhiteSpace_def)
  with True show ?thesis
    by (subst parseValue.simps) simp
next
  case False
  then obtain v vs' where vs: "vs = v # vs'"
    by (cases vs) auto
  then obtain t where "stringifyValue v = CHR ''{'' # t"
    using assms(1) element_start by auto
  then obtain t' where t: "stringifyElements vs = CHR ''{'' # t'"
    unfolding vs by (cases vs') auto
  have 1: "skipWhiteSpace (CHR ''['' # stringifyElements vs @ CHR '']'' # rest)
      = CHR ''['' # stringifyElements vs @ CHR '']'' # rest"
    by (simp add: skipWhiteSpace_def isJsonWhiteSpace_def)
  have 2: "skipWhiteSpace (stringifyElements vs @ CHR '']'' # rest) = CHR ''{'' # t' @ CHR '']'' # rest"
    unfolding t by (simp add: skipWhiteSpace_def isJsonWhiteSpace_def)
  have 3: "parseElements n (stringifyElements vs @ CHR '']'' # rest) = Inr (vs, rest)"
    using False assms by (intro parse_elements_flat) simp_all
  show ?thesis
    by (subst parseValue.simps) (simp add: 1 2 3)
qed

lemma length_quoted: "2 \<le> length (quoteJSONString s)"
  by (simp add: quoteJSONString_def)

lemma length_flat_object: "flatObject v \<Longrightarrow> 4 \<le> length (stringifyValue v)"
proof (cases v)
  case (JObject ms)
  assume "flatObject v"
  with JObject obtain m ms' where "ms = m # ms'"
    by (cases ms) (auto simp: flatObject_def)
  then have "2 \<le> length (stringifyMembers ms)"
    using length_quoted [of "fst m"] by (cases ms') simp_all
  with JObject show ?thesis by simp
qed (simp_all add: flatObject_def)

lemma length_elements:
  "\<forall>v \<in> set vs. 4 \<le> length (stringifyValue v) \<Longrightarrow> 4 * length vs \<le> length (stringifyElements vs)"
proof (induction vs)
  case Nil
  then show ?case by simp
next
  case (Cons v vs)
  then show ?case by (cases vs) auto
qed

lemma JSON_parse_store:
  assumes "\<forall>v \<in> set vs. flatObject v"
  shows "JSON_parse (stringifyValue (JArray vs)) = Inr (JArray vs)"
proof -
  let ?text = "stringifyValue (JArray vs)"
  have "4 * length vs \<le> length (stringifyElements vs)"
    using assms length_flat_object by (intro length_elements) blast
  then have "vs = [] \<or> length vs + 9 \<le> 2 * length ?text + 1"
    by (cases vs) simp_all
  with assms have "parseValue (Suc (2 * length ?text + 1)) (?text @ []) = Inr (JArray vs, [])"
    by (rule parse_store_array)
  then have "parseValue (2 * length ?text + 2) ?text = Inr (JArray vs, [])"
    by simp
  then show ?thesis
    by (simp add: JSON_parse_def skipWhiteSpace_def)
qed

lemma statusOfString_statusString: "statusOfString (statusString st) = Some st"
  by (cases st) (simp_all add: statusOfString_def statusString_def)

lemma asImage_imageValue: "asImage (imageValue img) = Some img"
  by (cases "url img"; cases "error img"; cases "completionTime img")
    (simp_all add: asImage_def imageValue_def optionalMember_def property_def stringProperty_def
      numberProperty_def optionalString_def optionalNumber_def statusOfString_statusString)

lemma those_map_Some: "(\<And>x. f x = Some (g x)) \<Longrightarrow> those (map f xs) = Some (map g xs)"
  by (induction xs) simp_all

lemma asImages_imagesValue: "asImages (imagesValue imgs) = Some imgs"
  using those_map_Some [of "\<lambda>img. asImage (imageValue img)" "\<lambda>img. img" imgs]
  by (simp add: asImages_def imagesValue_def asImage_imageValue comp_def)

lemma imageValue_flat: "flatObject (imageValue img)"
  by (cases "url img"; cases "error img"; cases "completionTime img")
    (simp_all add: flatObject_def imageValue_def optionalMember_def scalar_def)

lemma JSON_parse_images: "JSON_parse (JSON_stringify (imagesValue imgs)) = Inr (imagesValue imgs)"
  unfolding JSON_stringify_def imagesValue_def
  by (rule JSON_parse_store) (simp add: imageValue_flat)

subsection \<open>The recursion bound is never reached\<close>

lemma consChar_no_fuel: "r \<noteq> Inl OutOfFuel \<Longrightarrow> consChar c r \<noteq> Inl OutOfFuel"
  by (cases r) (auto simp: consChar_def)

lemma consChar_rest:
  "consChar c r = Inr (x, rest) \<Longrightarrow> \<exists>y. r = Inr (y, rest)"
  by (cases r) (auto simp: consChar_def)

lemma string_no_fuel: "parseStringBody s \<noteq> Inl OutOfFuel"
proof (induction "length s" arbitrary: s rule: less_induct)
  case less
  show ?case
  proof (cases s)
    case Nil
    then show ?thesis by (simp add: parseStringBody.simps)
  next
    case (Cons c cs)
    show ?thesis
      unfolding Cons
      by (subst parseStringBody.simps)
        (auto split: list.splits option.splits simp: Cons intro!: consChar_no_fuel less)
  qed
qed

lemma string_rest_shorter: "parseStringBody s = Inr (x, rest) \<Longrightarrow> length rest < length s"
proof (induction "length s" arbitrary: s x rule: less_induct)
  case less
  show ?case
  proof (cases s)
    case Nil
    with less.prems show ?thesis by (simp add: parseStringBody.simps)
  next
    case (Cons c cs)
    have step: "length rest < length t"
      if "consChar ch (parseStringBody t) = Inr (x, rest)" and "length t \<le> length cs" for ch t
    proof -
      from that(1) obtain y where "parseStringBody t = Inr (y, rest)"
        using consChar_rest by blast
      moreover have "length t < length s"
        using that(2) Cons by simp
      ultimately show ?thesis
        using less.hyps by blast
    qed
    from less.prems have "length rest \<le> length cs"
      unfolding Cons
      by (subst (asm) parseStringBody.simps)
        (auto split: list.splits option.splits if_splits dest!: step)
    then show ?thesis
      by (simp add: Cons)
  qed
qed

lemma digits_no_fuel: "parseDigits s \<noteq> Inl OutOfFuel"
  by (auto simp: parseDigits_def Let_def split: list.splits if_splits)

lemma number_no_fuel: "parseNumber s \<noteq> Inl OutOfFuel"
  using digits_no_fuel by (auto simp: parseNumber_def split: list.splits sum.splits)

lemma digits_rest_shorter: "parseDigits s = Inr (k, rest) \<Longrightarrow> length rest < length s"
proof (cases s)
  case Nil
  assume "parseDigits s = Inr (k, rest)"
  with Nil show ?thesis by (simp add: parseDigits_def)
next
  case (Cons d ds)
  assume p: "parseDigits s = Inr (k, rest)"
  then have d: "isDigit d"
    unfolding Cons by (auto simp: parseDigits_def split: if_splits)
  from p d have "length rest \<le> length ds"
    unfolding Cons
    by (auto simp: parseDigits_def Let_def length_dropWhile_le split: if_splits list.splits)
  then show ?thesis
    by (simp add: Cons)
qed

lemma number_rest_shorter: "parseNumber s = Inr (i, rest) \<Longrightarrow> length rest < length s"
  by (cases s) (auto simp: parseNumber_def split: if_splits sum.splits dest: digits_rest_shorter)

lemma skip_length: "skipWhiteSpace s = c # cs \<Longrightarrow> length cs < length s"
proof -
  assume "skipWhiteSpace s = c # cs"
  then have "Suc (length cs) = length (dropWhile isJsonWhiteSpace s)"
    by (simp add: skipWhiteSpace_def)
  then show ?thesis
    using length_dropWhile_le [of isJsonWhiteSpace s] by simp
qed

lemma value_rest_shorter:
  "(\<forall>s v rest. parseValue n s = Inr (v, rest) \<longrightarrow> length rest < length s)
   \<and> (\<forall>s vs rest. parseElements n s = Inr (vs, rest) \<longrightarrow> length rest < length s)
   \<and> (\<forall>s ms rest. parseMembers n s = Inr (ms, rest) \<longrightarrow> length rest < length s)"
proof (induction n)
  case 0
  show ?case by (simp add: parseValue.simps parseElements.simps parseMembers.simps)
next
  case (Suc n)
  then have v: "\<And>s v rest. parseValue n s = Inr (v, rest) \<Longrightarrow> length rest < length s"
    and e: "\<And>s vs rest. parseElements n s = Inr (vs, rest) \<Longrightarrow> length rest < length s"
    and m: "\<And>s ms rest. parseMembers n s = Inr (ms, rest) \<Longrightarrow> length rest < length s"
    by blast+
  have 1: "length rest < length s" if "parseValue (Suc n) s = Inr (v, rest)" for s v rest
    using that
    by (subst (asm) parseValue.simps)
      (auto split: list.splits sum.splits if_splits
        dest!: skip_length string_rest_shorter number_rest_shorter e m)
  have 2: "length rest < length s" if "parseElements (Suc n) s = Inr (vs, rest)" for s vs rest
    using that
    by (subst (asm) parseElements.simps)
      (auto split: list.splits sum.splits if_splits dest!: skip_length v e)
  have 3: "length rest < length s" if "parseMembers (Suc n) s = Inr (ms, rest)" for s ms rest
    using that
    by (subst (asm) parseMembers.simps)
      (auto split: list.splits sum.splits if_splits dest!: skip_length string_rest_shorter v m)
  from 1 2 3 show ?case by blast
qed

lemma value_no_fuel:
  "(\<forall>s. 2 * length s + 1 \<le> n \<longrightarrow> parseValue n s \<noteq> Inl OutOfFuel)
   \<and> (\<forall>s. 2 * length s + 2 \<le> n \<longrightarrow> parseElements n s \<noteq> Inl OutOfFuel)
   \<and> (\<forall>s. 2 * length s + 2 \<le> n \<longrightarrow> parseMembers n s \<noteq> Inl OutOfFuel)"
proof (induction n)
  case 0
  show ?case by simp
next
  case (Suc n)
  then have v: "\<And>s. 2 * length s + 1 \<le> n \<Longrightarrow> parseValue n s \<noteq> Inl OutOfFuel"
    and e: "\<And>s. 2 * length s + 2 \<le> n \<Longrightarrow> parseElements n s \<noteq> Inl OutOfFuel"
    and m: "\<And>s. 2 * length s + 2 \<le> n \<Longrightarrow> parseMembers n s \<noteq> Inl OutOfFuel"
    by blast+
  note shorter = value_rest_shorter [of n]
  have 1: "parseValue (Suc n) s \<noteq> Inl OutOfFuel" if "2 * length s + 1 \<le> Suc n" for s
  proof
    assume "parseValue (Suc n) s = Inl OutOfFuel"
    then consider c cs where "skipWhiteSpace s = c # cs" and "parseStringBody cs = Inl OutOfFuel"
      | c cs where "skipWhiteSpace s = c # cs" and "parseElements n cs = Inl OutOfFuel"
      | c cs where "skipWhiteSpace s = c # cs" and "parseMembers n cs = Inl OutOfFuel"
      | c cs where "skipWhiteSpace s = c # cs" and "parseNumber (c # cs) = Inl OutOfFuel"
      by (subst (asm) parseValue.simps) (auto split: list.splits sum.splits if_splits)
    then show False
    proof cases
      case 1
      then show ?thesis using string_no_fuel by blast
    next
      case 2
      then have "2 * length cs + 2 \<le> n"
        using that skip_length [of s c cs] by simp
      with 2 show ?thesis using e by blast
    next
      case 3
      then have "2 * length cs + 2 \<le> n"
        using that skip_length [of s c cs] by simp
      with 3 show ?thesis using m by blast
    next
      case 4
      then show ?thesis using number_no_fuel by blast
    qed
  qed
  have 2: "parseElements (Suc n) s \<noteq> Inl OutOfFuel" if "2 * length s + 2 \<le> Suc n" for s
  proof
    assume "parseElements (Suc n) s = Inl OutOfFuel"
    then consider "parseValue n s = Inl OutOfFuel"
      | v rest d ds where "parseValue n s = Inr (v, rest)" and "skipWhiteSpace rest = d # ds"
        and "parseElements n ds = Inl OutOfFuel"
      by (subst (asm) parseElements.simps) (auto split: list.splits sum.splits if_splits)
    then show False
    proof cases
      case 1
      then show ?thesis using that v [of s] by simp
    next
      case 2
      then have "length rest < length s" and "length ds < length rest"
        using shorter skip_length by blast+
      then have "2 * length ds + 2 \<le> n"
        using that by simp
      with 2 show ?thesis using e by blast
    qed
  qed
  have 3: "parseMembers (Suc n) s \<noteq> Inl OutOfFuel" if "2 * length s + 2 \<le> Suc n" for s
  proof
    assume "parseMembers (Suc n) s = Inl OutOfFuel"
    then consider q cs where "skipWhiteSpace s = q # cs" and "parseStringBody cs = Inl OutOfFuel"
      | q cs key rest colon rest1 where "skipWhiteSpace s = q # cs"
        and "parseStringBody cs = Inr (key, rest)" and "skipWhiteSpace rest = colon # rest1"
        and "parseValue n rest1 = Inl OutOfFuel"
      | q cs key rest colon rest1 v rest2 d ds where "skipWhiteSpace s = q # cs"
        and "parseStringBody cs = Inr (key, rest)" and "skipWhiteSpace rest = colon # rest1"
        and "parseValue n rest1 = Inr (v, rest2)" and "skipWhiteSpace rest2 = d # ds"
        and "parseMembers n ds = Inl OutOfFuel"
      by (subst (asm) parseMembers.simps) (auto split: list.splits sum.splits if_splits)
    then show False
    proof cases
      case 1
      then show ?thesis using string_no_fuel by blast
    next
      case 2
      then have "length cs < length s" and "length rest < length cs" and "length rest1 < length rest"
        using skip_length string_rest_shorter by blast+
      then have "2 * length rest1 + 1 \<le> n"
        using that by simp
      with 2 show ?thesis using v by blast
    next
      case 3
      then have "length cs < length s" and "length rest < length cs" and "length rest1 < length rest"
        and "length rest2 < length rest1" and "length ds < length rest2"
        using skip_length string_rest_shorter shorter by blast+
      then have "2 * length ds + 2 \<le> n"
        using that by simp
      with 3 show ?thesis using m by blast
    qed
  qed
  from 1 2 3 show ?case by blast
qed

lemma JSON_parse_total: "JSON_parse text \<noteq> Inl OutOfFuel"
proof -
  have "parseValue (2 * length text + 2) text \<noteq> Inl OutOfFuel"
    using value_no_fuel [of "2 * length text + 2"] by simp
  then show ?thesis
    by (auto simp: JSON_parse_def split: sum.splits)
qed

text \<open>
  C10. For every store, the text the effect writes to local storage is read back by the
  initializer as the same array: the same records in the same order, every field of
  every record as it was (strings over the code units 0 to 255, integer timestamps,
  absent fields absent).
\<close>

theorem persisted_store_restored:
  "loadImages True (persistImages imgs st) = Inr (imagesValue imgs)
   \<and> asImages (imagesValue imgs) = Some imgs"
proof -
  have "JSON_stringify (imagesValue imgs) \<noteq> []"
    by (simp add: JSON_stringify_def imagesValue_def)
  then have "loadImages True (persistImages imgs st) = JSON_parse (JSON_stringify (imagesValue imgs))"
    by (simp add: loadImages_def persistImages_def getItem_def setItem_def)
  then show ?thesis
    by (simp add: JSON_parse_images asImages_imagesValue)
qed

lemma JSON_parse_empty_array: "JSON_parse ''[]'' = Inr (JArray [])"
  by code_simp

text \<open>
  C6, as the code has it. Without a window, with no entry under the key, or with the
  empty string under it, the store starts empty. Any other text goes to \<^verbatim>\<open>JSON.parse\<close>
  and the initializer returns what it returns: when the text is not JSON, the
  \<^verbatim>\<open>SyntaxError\<close> is not caught. (The recursion bound of the model of \<^verbatim>\<open>JSON.parse\<close> is
  never what makes loading fail.)
\<close>

theorem load_empty_when_missing_else_parse:
  "(getItem ''generated-images'' st = None \<or> getItem ''generated-images'' st = Some []
      \<longrightarrow> loadImages window st = Inr (JArray []))
   \<and> (getItem ''generated-images'' st = Some saved \<and> saved \<noteq> []
      \<longrightarrow> loadImages True st = JSON_parse saved)
   \<and> loadImages False st = Inr (JArray [])
   \<and> loadImages window st \<noteq> Inl OutOfFuel"
  using JSON_parse_total by (auto simp: loadImages_def split: option.splits)

theorem load_empty_when_missing_else_parse_witness:
  "loadImages True [] = Inr (JArray [])
   \<and> loadImages True [(''generated-images'', ''[]'')] = Inr (JArray [])"
  using load_empty_when_missing_else_parse [of "[]" True]
    load_empty_when_missing_else_parse [where st = "[(''generated-images'', ''[]'')]" and saved = "''[]''"]
  by (simp add: getItem_def JSON_parse_empty_array)

text \<open>
  C6 as stated fails: with a text under the key that breaks off in the middle of a
  record, loading raises the \<^verbatim>\<open>SyntaxError\<close> of \<^verbatim>\<open>JSON.parse\<close>.
\<close>

theorem corrupt_state_raises:
  \<open>loadImages True [(''generated-images'', ''[{"id":"abc123","prompt'')] = Inl SyntaxError\<close>
  by code_simp

end
